theory Spec2Isabelle
  imports Main "HOL-Library.AList"
begin

section \<open>Python string primitives used by the detector\<close>

text \<open>
  A Python \<open>str\<close> is a sequence of code points. The model is \<open>string\<close>, whose
  characters are the code points U+0000 .. U+00FF; the character classes below are the
  ones Python's \<open>str\<close> methods and the \<open>re\<close> module (Unicode patterns) use on that range.
\<close>

definition ord :: "char \<Rightarrow> nat" where
  "ord c = of_char c"

definition isspace :: "char \<Rightarrow> bool" where
  \<comment> \<open>\<open>str.isspace\<close>, the class \<open>\s\<close>, and what \<open>strip()\<close> and \<open>split()\<close> remove\<close>
  "isspace c = (let n = ord c in (9 \<le> n \<and> n \<le> 13) \<or> (28 \<le> n \<and> n \<le> 32) \<or> n = 133 \<or> n = 160)"

definition isdigit :: "char \<Rightarrow> bool" where
  \<comment> \<open>the class \<open>\d\<close>\<close>
  "isdigit c = (let n = ord c in 48 \<le> n \<and> n \<le> 57)"

definition isAsciiLetter :: "char \<Rightarrow> bool" where
  \<comment> \<open>the class \<open>[A-Za-z]\<close>\<close>
  "isAsciiLetter c = (let n = ord c in (65 \<le> n \<and> n \<le> 90) \<or> (97 \<le> n \<and> n \<le> 122))"

definition isWordChar :: "char \<Rightarrow> bool" where
  \<comment> \<open>the class \<open>\w\<close>: alphanumeric or underscore\<close>
  "isWordChar c = (let n = ord c in
     isdigit c \<or> isAsciiLetter c \<or> n = 95 \<or> n = 170 \<or> n = 178 \<or> n = 179 \<or> n = 181
     \<or> n = 185 \<or> n = 186 \<or> (188 \<le> n \<and> n \<le> 190) \<or> (192 \<le> n \<and> n \<le> 214)
     \<or> (216 \<le> n \<and> n \<le> 246) \<or> 248 \<le> n)"

definition lowerChar :: "char \<Rightarrow> char" where
  "lowerChar c = (let n = ord c in
     if (65 \<le> n \<and> n \<le> 90) \<or> (192 \<le> n \<and> n \<le> 222 \<and> n \<noteq> 215) then char_of (n + 32) else c)"

definition str_lower :: "string \<Rightarrow> string" where
  "str_lower s = map lowerChar s"

definition str_strip :: "string \<Rightarrow> string" where
  "str_strip s = rev (dropWhile isspace (rev (dropWhile isspace s)))"

text \<open>\<open>s.split(c, 1)\<close> for a string that contains \<open>c\<close>: the parts before and after the first \<open>c\<close>.\<close>

definition split_first :: "char \<Rightarrow> string \<Rightarrow> string \<times> string" where
  "split_first c s = (takeWhile (\<lambda>x. x \<noteq> c) s, tl (dropWhile (\<lambda>x. x \<noteq> c) s))"

text \<open>\<open>s.split()\<close>: the maximal runs of non-whitespace characters.\<close>

function str_split :: "string \<Rightarrow> string list" where
  "str_split s =
     (case dropWhile isspace s of
        [] \<Rightarrow> []
      | c # cs \<Rightarrow> takeWhile (\<lambda>x. \<not> isspace x) (c # cs) # str_split (dropWhile (\<lambda>x. \<not> isspace x) cs))"
  by pat_completeness auto
termination
proof (relation "measure length")
  show "wf (measure length)" by simp
next
  fix s :: string and c :: char and cs :: string
  assume a: "dropWhile isspace s = c # cs"
  have "length (dropWhile (\<lambda>x. \<not> isspace x) cs) \<le> length cs"
    by (rule length_dropWhile_le)
  moreover have "length (c # cs) \<le> length s"
    using length_dropWhile_le [of isspace s] a by simp
  ultimately show "(dropWhile (\<lambda>x. \<not> isspace x) cs, s) \<in> measure length"
    by simp
qed

text \<open>\<open>re.split(r'\s+', s)\<close>: the pieces between the maximal runs of whitespace, empty
  pieces at the ends included.\<close>

function re_split_ws :: "string \<Rightarrow> string list" where
  "re_split_ws s =
     (case dropWhile (\<lambda>x. \<not> isspace x) s of
        [] \<Rightarrow> [s]
      | c # cs \<Rightarrow> takeWhile (\<lambda>x. \<not> isspace x) s # re_split_ws (dropWhile isspace cs))"
  by pat_completeness auto
termination
proof (relation "measure length")
  show "wf (measure length)" by simp
next
  fix s :: string and c :: char and cs :: string
  assume a: "dropWhile (\<lambda>x. \<not> isspace x) s = c # cs"
  have "length (dropWhile isspace cs) \<le> length cs"
    by (rule length_dropWhile_le)
  moreover have "length (c # cs) \<le> length s"
    using length_dropWhile_le [of "\<lambda>x. \<not> isspace x" s] a by simp
  ultimately show "(dropWhile isspace cs, s) \<in> measure length"
    by simp
qed

text \<open>\<open>sep.join(parts)\<close>.\<close>

fun str_join :: "string \<Rightarrow> string list \<Rightarrow> string" where
  "str_join sep [] = []"
| "str_join sep [p] = p"
| "str_join sep (p # q # ps) = p @ sep @ str_join sep (q # ps)"

text \<open>\<open>s[-n:]\<close> for \<open>n > 0\<close>: the last \<open>n\<close> characters, the whole string when it is shorter.\<close>

definition last_n :: "nat \<Rightarrow> string \<Rightarrow> string" where
  "last_n n s = drop (length s - n) s"

text \<open>\<open>m in t\<close> on strings: \<open>m\<close> occurs in \<open>t\<close> as a contiguous substring.\<close>

fun startswith :: "string \<Rightarrow> string \<Rightarrow> bool" where
  "startswith t [] = True"
| "startswith [] (m # ms) = False"
| "startswith (c # cs) (m # ms) = (c = m \<and> startswith cs ms)"

fun str_contains :: "string \<Rightarrow> string \<Rightarrow> bool" where
  "str_contains [] m = (m = [])"
| "str_contains (c # cs) m = (startswith (c # cs) m \<or> str_contains cs m)"

text \<open>\<open>re.sub(r'\D', '', val)\<close>: the digits of \<open>val\<close>, in order.\<close>

definition re_sub_nondigits :: "string \<Rightarrow> string" where
  "re_sub_nondigits val = filter isdigit val"

text \<open>\<open>re.fullmatch(r'[A-Za-z]\d{7,8}', s)\<close>.\<close>

definition fullmatch_passport :: "string \<Rightarrow> bool" where
  "fullmatch_passport s =
     (case s of
        [] \<Rightarrow> False
      | c # cs \<Rightarrow> isAsciiLetter c \<and> (length cs = 7 \<or> length cs = 8) \<and> list_all isdigit cs)"

text \<open>\<open>re.fullmatch(r'[A-Za-z0-9.\-_]{2,}', s)\<close>.\<close>

definition isUserChar :: "char \<Rightarrow> bool" where
  "isUserChar c = (isAsciiLetter c \<or> isdigit c \<or> c = CHR ''.'' \<or> c = CHR ''-'' \<or> c = CHR ''_'')"

definition fullmatch_user :: "string \<Rightarrow> bool" where
  "fullmatch_user s = (2 \<le> length s \<and> list_all isUserChar s)"

text \<open>\<open>re.search(r'\b\d{6}\b', t)\<close>: six digits with a word boundary on each side. A
  boundary lies between two positions exactly one of which holds a word character; the
  ends of the string count as non-word.\<close>

definition word_boundary :: "char option \<Rightarrow> char option \<Rightarrow> bool" where
  "word_boundary prev nxt =
     ((case prev of None \<Rightarrow> False | Some c \<Rightarrow> isWordChar c)
       \<noteq> (case nxt of None \<Rightarrow> False | Some c \<Rightarrow> isWordChar c))"

definition char_at :: "string \<Rightarrow> nat \<Rightarrow> char option" where
  "char_at s i = (if i < length s then Some (s ! i) else None)"

fun search_six_digits :: "char option \<Rightarrow> string \<Rightarrow> bool" where
  "search_six_digits prev [] = False"
| "search_six_digits prev (c # cs) =
     ((6 \<le> length (c # cs) \<and> list_all isdigit (take 6 (c # cs))
        \<and> word_boundary prev (Some c)
        \<and> word_boundary (char_at (c # cs) 5) (char_at (c # cs) 6))
      \<or> search_six_digits (Some c) cs)"

section \<open>Value classifiers\<close>

definition phoneKeys :: "string set" where
  "phoneKeys = {''phone'', ''contact'', ''mobile'', ''alt_phone'', ''alt_contact''}"

definition aadharKeys :: "string set" where
  "aadharKeys = {''aadhar'', ''aadhaar''}"

definition passportKeys :: "string set" where
  "passportKeys = {''passport''}"

definition upiKeys :: "string set" where
  "upiKeys = {''upi_id'', ''upi'', ''vpa''}"

definition upiHandles :: "string set" where
  "upiHandles = {''upi'', ''ybl'', ''ibl'', ''paytm'', ''okhdfcbank'', ''okaxis'', ''oksbi'',
     ''okicici'', ''axisbank'', ''hdfcbank'', ''sbi'', ''icici'', ''fbl'', ''airtel'', ''apl'',
     ''yapl'', ''kbl'', ''axl''}"

definition is10DigitPhone :: "string \<Rightarrow> bool" where
  "is10DigitPhone val = (let digits = re_sub_nondigits val in length digits = 10)"

definition isAadhar :: "string \<Rightarrow> bool" where
  "isAadhar val = (let digits = re_sub_nondigits val in length digits = 12)"

definition isPassport :: "string \<Rightarrow> bool" where
  "isPassport val = fullmatch_passport (str_strip val)"

definition isUpi :: "string \<Rightarrow> bool" where
  "isUpi val =
     (let v = str_strip val in
      if CHR ''@'' \<notin> set v then False
      else let (user, handle) = split_first CHR ''@'' v in
        if \<not> fullmatch_user user then False
        else let base = str_lower (takeWhile (\<lambda>x. x \<noteq> CHR ''.'') handle) in
          base \<in> upiHandles)"

definition markers :: "string list" where
  "markers = [''street'', ''st.'', ''road'', ''rd'', ''lane'', ''ln'', ''avenue'', ''ave'',
     ''block'', ''sector'', ''near'', ''opp'', ''apartment'', ''society'', ''floor'']"

definition looksLikeAddress :: "string \<Rightarrow> bool" where
  "looksLikeAddress text =
     (if text = [] then False
      else let t = str_lower text in
        if list_ex (str_contains t) markers then True
        else if search_six_digits None t then True
        else 2 \<le> count_list t CHR '','' \<and> 10 \<le> length t)"

section \<open>Maskers\<close>

definition sentinel :: string where
  "sentinel = ''[REDACTED_PII]''"

definition maskPhone :: "string \<Rightarrow> string" where
  "maskPhone val =
     (let digits = re_sub_nondigits val in
      if length digits \<noteq> 10 then sentinel
      else take 2 digits @ replicate 6 CHR ''X'' @ last_n 2 digits)"

definition maskAadhar :: "string \<Rightarrow> string" where
  "maskAadhar val =
     (let digits = re_sub_nondigits val in
      if length digits \<noteq> 12 then sentinel
      else ''XXXX XXXX '' @ last_n 4 digits)"

definition maskPassport :: "string \<Rightarrow> string" where
  "maskPassport val =
     (let v = str_strip val in
      if \<not> isPassport v then sentinel
      else take 1 v @ replicate (length v - 1) CHR ''X'')"

definition maskUpi :: "string \<Rightarrow> string" where
  "maskUpi val =
     (let v = str_strip val in
      if CHR ''@'' \<notin> set v then sentinel
      else let (user, handle) = split_first CHR ''@'' v;
               maskedUser =
                 (if length user \<le> 4 then take 1 user @ replicate (length user - 1) CHR ''X''
                  else take 2 user @ replicate (length user - 4) CHR ''X'' @ last_n 2 user)
           in maskedUser @ ''@'' @ handle)"

definition maskToken :: "string \<Rightarrow> string" where
  \<comment> \<open>\<open>p[0] + 'X'*(len(p)-1)\<close>, applied to non-empty \<open>p\<close> only\<close>
  "maskToken p = take 1 p @ replicate (length p - 1) CHR ''X''"

definition maskName :: "string \<Rightarrow> string" where
  "maskName val =
     (let parts = re_split_ws (str_strip val);
          masked = map maskToken (filter (\<lambda>p. p \<noteq> []) parts)
      in if masked \<noteq> [] then str_join '' '' masked else val)"

definition maskEmail :: "string \<Rightarrow> string" where
  "maskEmail val =
     (let v = str_strip val in
      if CHR ''@'' \<notin> set v then sentinel
      else let (local, domain) = split_first CHR ''@'' v;
               mlocal =
                 (if length local \<le> 2 then take 1 local @ replicate (length local - 1) CHR ''X''
                  else take 2 local @ ''XXX'')
           in mlocal @ ''@'' @ domain)"

section \<open>Record values and their JSON text\<close>

text \<open>
  A record is a Python \<open>dict\<close> as \<open>json.loads\<close> builds it: string keys in insertion
  order, each key once. It is an association list; \<open>AList.update\<close> is the assignment
  \<open>d[k] = x\<close> (the value is replaced in place, a new key is appended). A float carries
  the text \<open>json.dumps\<close> prints for it.
\<close>

datatype json =
    JNull
  | JBool bool
  | JInt int
  | JFloat string
  | JStr string
  | JList "json list"
  | JObj "(string \<times> json) list"

type_synonym pyrecord = "(string \<times> json) list"

datatype error = AttributeError

text \<open>Python truthiness of a value (\<open>if x\<close>, \<open>not x\<close>).\<close>

definition truthy :: "json \<Rightarrow> bool" where
  "truthy x =
     (case x of
        JNull \<Rightarrow> False
      | JBool b \<Rightarrow> b
      | JInt i \<Rightarrow> i \<noteq> 0
      | JFloat s \<Rightarrow> s \<noteq> ''0.0'' \<and> s \<noteq> ''-0.0''
      | JStr s \<Rightarrow> s \<noteq> []
      | JList xs \<Rightarrow> xs \<noteq> []
      | JObj kvs \<Rightarrow> kvs \<noteq> [])"

text \<open>\<open>json.dumps\<close> with its defaults: separators \<open>', '\<close> and \<open>': '\<close>, non-printable and
  non-ASCII characters of a string escaped.\<close>

definition digit_char :: "nat \<Rightarrow> char" where
  "digit_char n = ''0123456789abcdef'' ! n"

function decimal :: "int \<Rightarrow> string" where
  "decimal n = (if n < 10 then [digit_char (nat n)] else decimal (n div 10) @ [digit_char (nat (n mod 10))])"
  by pat_completeness auto
termination
  by (relation "measure nat") auto

definition int_str :: "int \<Rightarrow> string" where
  "int_str i = (if i < 0 then CHR ''-'' # decimal (- i) else decimal i)"

definition escape_char :: "char \<Rightarrow> string" where
  "escape_char c = (let n = ord c in
     if n = 34 then [CHR 0x5C, CHR 0x22]
     else if n = 92 then [CHR 0x5C, CHR 0x5C]
     else if n = 10 then [CHR 0x5C, CHR ''n'']
     else if n = 13 then [CHR 0x5C, CHR ''r'']
     else if n = 9 then [CHR 0x5C, CHR ''t'']
     else if n = 8 then [CHR 0x5C, CHR ''b'']
     else if n = 12 then [CHR 0x5C, CHR ''f'']
     else if 32 \<le> n \<and> n \<le> 126 then [c]
     else [CHR 0x5C, CHR ''u'', CHR ''0'', CHR ''0'', digit_char (n div 16), digit_char (n mod 16)])"

definition quote :: "string \<Rightarrow> string" where
  "quote s = [CHR 0x22] @ concat (map escape_char s) @ [CHR 0x22]"

fun json_dumps :: "json \<Rightarrow> string" where
  "json_dumps JNull = ''null''"
| "json_dumps (JBool b) = (if b then ''true'' else ''false'')"
| "json_dumps (JInt i) = int_str i"
| "json_dumps (JFloat s) = s"
| "json_dumps (JStr s) = quote s"
| "json_dumps (JList xs) = ''['' @ str_join '', '' (map json_dumps xs) @ '']''"
| "json_dumps (JObj kvs) =
     ''{'' @ str_join '', '' (map (\<lambda>kv. quote (fst kv) @ '': '' @ json_dumps (snd kv)) kvs) @ ''}''"

section \<open>The record classifier\<close>

record scan =
  hasFullName :: bool
  hasEmail :: bool
  hasAddress :: bool
  hasDeviceOrIp :: bool
  standaloneHit :: bool
  redacted :: pyrecord

text \<open>The string a value is classified by:
  \<open>value if isinstance(value, str) else (json.dumps(value) if value is not None else '')\<close>.\<close>

definition value_str :: "json \<Rightarrow> string" where
  "value_str x = (case x of JStr s \<Rightarrow> s | JNull \<Rightarrow> [] | _ \<Rightarrow> json_dumps x)"

text \<open>One pass of the loop over \<open>data.items()\<close>. Each standalone branch ends in
  \<open>continue\<close>; otherwise the four combinational tests follow, one after the other.
  \<open>v\<close> is always a string here, so \<open>isinstance(v, str)\<close> holds.\<close>

definition scan_combo :: "string \<Rightarrow> string \<Rightarrow> scan \<Rightarrow> scan" where
  "scan_combo k v st =
     (let st1 = (if k = ''name'' \<and> 2 \<le> length (str_split v) then st\<lparr>hasFullName := True\<rparr> else st);
          st2 = (if k = ''email'' \<and> CHR ''@'' \<in> set v then st1\<lparr>hasEmail := True\<rparr> else st1);
          st3 = (if k = ''address'' \<and> looksLikeAddress v then st2\<lparr>hasAddress := True\<rparr> else st2)
      in if k \<in> {''ip_address'', ''device_id''} \<and> v \<noteq> [] \<and> v \<noteq> ''0.0.0.0''
         then st3\<lparr>hasDeviceOrIp := True\<rparr> else st3)"

definition scan_field :: "string \<times> json \<Rightarrow> scan \<Rightarrow> scan" where
  "scan_field kv st =
     (let key = fst kv; k = str_lower key; v = value_str (snd kv) in
      if k \<in> phoneKeys \<and> is10DigitPhone v then
        st\<lparr>standaloneHit := True, redacted := AList.update key (JStr (maskPhone v)) (redacted st)\<rparr>
      else if k \<in> aadharKeys \<and> isAadhar v then
        st\<lparr>standaloneHit := True, redacted := AList.update key (JStr (maskAadhar v)) (redacted st)\<rparr>
      else if k \<in> passportKeys \<and> isPassport v then
        st\<lparr>standaloneHit := True, redacted := AList.update key (JStr (maskPassport v)) (redacted st)\<rparr>
      else if k \<in> upiKeys \<and> isUpi v then
        st\<lparr>standaloneHit := True, redacted := AList.update key (JStr (maskUpi v)) (redacted st)\<rparr>
      else scan_combo k v st)"

definition scan_init :: "pyrecord \<Rightarrow> scan" where
  "scan_init data =
     \<lparr>hasFullName = False, hasEmail = False, hasAddress = False, hasDeviceOrIp = False,
      standaloneHit = False, redacted = data\<rparr>"

definition comboHits :: "scan \<Rightarrow> nat" where
  \<comment> \<open>\<open>sum([hasFullName, hasEmail, hasAddress, hasDeviceOrIp])\<close>\<close>
  "comboHits st = length (filter id [hasFullName st, hasEmail st, hasAddress st, hasDeviceOrIp st])"

text \<open>\<open>looksLikeAddress\<close> as the masking step calls it, on the raw value: a falsy value
  returns False at \<open>if not text\<close>, a string goes on, any other value has no \<open>lower\<close>.\<close>

definition looksLikeAddress_any :: "json \<Rightarrow> error + bool" where
  "looksLikeAddress_any x =
     (if \<not> truthy x then Inr False
      else case x of JStr s \<Rightarrow> Inr (looksLikeAddress s) | _ \<Rightarrow> Inl AttributeError)"

definition mask_name_step :: "pyrecord \<Rightarrow> pyrecord \<Rightarrow> pyrecord" where
  "mask_name_step data red =
     (case map_of data ''name'' of
        Some (JStr s) \<Rightarrow>
          if 2 \<le> length (str_split s) then AList.update ''name'' (JStr (maskName s)) red else red
      | _ \<Rightarrow> red)"

definition mask_email_step :: "pyrecord \<Rightarrow> pyrecord \<Rightarrow> pyrecord" where
  "mask_email_step data red =
     (case map_of data ''email'' of
        Some (JStr s) \<Rightarrow>
          if CHR ''@'' \<in> set s then AList.update ''email'' (JStr (maskEmail s)) red else red
      | _ \<Rightarrow> red)"

definition mask_address_step :: "pyrecord \<Rightarrow> pyrecord \<Rightarrow> error + pyrecord" where
  "mask_address_step data red =
     (case map_of data ''address'' of
        None \<Rightarrow> Inr red
      | Some x \<Rightarrow>
          (case looksLikeAddress_any x of
             Inl e \<Rightarrow> Inl e
           | Inr b \<Rightarrow> Inr (if b then AList.update ''address'' (JStr sentinel) red else red)))"

definition mask_device_step :: "string \<Rightarrow> pyrecord \<Rightarrow> pyrecord \<Rightarrow> pyrecord" where
  "mask_device_step key data red =
     (case map_of data key of
        None \<Rightarrow> red
      | Some x \<Rightarrow> if truthy x then AList.update key (JStr sentinel) red else red)"

definition detectAndRedact :: "pyrecord \<Rightarrow> error + (pyrecord \<times> bool)" where
  "detectAndRedact recd =
     (let data = recd;
          st = fold scan_field data (scan_init data);
          isComboPii = (2 \<le> comboHits st);
          is_pii = (standaloneHit st \<or> isComboPii)
      in if isComboPii then
           (case mask_address_step data (mask_email_step data (mask_name_step data (redacted st))) of
              Inl e \<Rightarrow> Inl e
            | Inr red \<Rightarrow>
                Inr (mask_device_step ''device_id'' data (mask_device_step ''ip_address'' data red),
                     is_pii))
         else Inr (redacted st, is_pii))"

section \<open>Per-field view of the classifier\<close>

text \<open>The standalone branches of \<open>scan_field\<close> as a function of one field: the masked
  value when one of the four branches is taken, \<open>None\<close> when the field falls through to
  the combinational tests.\<close>

definition standalone :: "string \<Rightarrow> json \<Rightarrow> json option" where
  "standalone key x =
     (let k = str_lower key; v = value_str x in
      if k \<in> phoneKeys \<and> is10DigitPhone v then Some (JStr (maskPhone v))
      else if k \<in> aadharKeys \<and> isAadhar v then Some (JStr (maskAadhar v))
      else if k \<in> passportKeys \<and> isPassport v then Some (JStr (maskPassport v))
      else if k \<in> upiKeys \<and> isUpi v then Some (JStr (maskUpi v))
      else None)"

text \<open>A token of \<open>split()\<close>: non-empty and free of whitespace.\<close>

definition is_token :: "string \<Rightarrow> bool" where
  "is_token p = (p \<noteq> [] \<and> (\<forall>x\<in>set p. \<not> isspace x))"

text \<open>The masked local part computed inside \<open>maskEmail\<close> (\<open>mlocal\<close>).\<close>

definition email_local :: "string \<Rightarrow> string" where
  "email_local l = (if length l \<le> 2 then take 1 l @ replicate (length l - 1) CHR ''X'' else take 2 l @ ''XXX'')"

text \<open>The masked user part computed inside \<open>maskUpi\<close> (\<open>maskedUser\<close>).\<close>

definition upi_user :: "string \<Rightarrow> string" where
  "upi_user u = (if length u \<le> 4 then take 1 u @ replicate (length u - 1) CHR ''X''
                 else take 2 u @ replicate (length u - 4) CHR ''X'' @ last_n 2 u)"

text \<open>The literal keys the combinational masking step looks up.\<close>

definition combo_key :: "string \<Rightarrow> bool" where
  "combo_key k = (k = ''name'' \<or> k = ''email'' \<or> k = ''address'' \<or> k = ''ip_address'' \<or> k = ''device_id'')"

text \<open>The combinational masking step as a function of one field: the value it writes under
  a literal key, \<open>None\<close> when it leaves the field alone.\<close>

definition combo_mask :: "string \<Rightarrow> json \<Rightarrow> json option" where
  "combo_mask k x =
     (if k = ''name'' then
        (case x of JStr s \<Rightarrow> if 2 \<le> length (str_split s) then Some (JStr (maskName s)) else None
         | _ \<Rightarrow> None)
      else if k = ''email'' then
        (case x of JStr s \<Rightarrow> if CHR ''@'' \<in> set s then Some (JStr (maskEmail s)) else None
         | _ \<Rightarrow> None)
      else if k = ''address'' then
        (if looksLikeAddress_any x = Inr True then Some (JStr sentinel) else None)
      else if k = ''ip_address'' \<or> k = ''device_id'' then
        (if truthy x then Some (JStr sentinel) else None)
      else None)"

text \<open>The value of a field after the loop.\<close>

definition base_value :: "string \<Rightarrow> json \<Rightarrow> json" where
  "base_value k x = (case standalone k x of Some m \<Rightarrow> m | None \<Rightarrow> x)"

text \<open>The value of a field in the returned record; \<open>c\<close> is \<open>isComboPii\<close>.\<close>

definition final_value :: "bool \<Rightarrow> string \<Rightarrow> json \<Rightarrow> json" where
  "final_value c k x =
     (if c then (case combo_mask k x of Some m \<Rightarrow> m | None \<Rightarrow> base_value k x)
      else base_value k x)"

text \<open>The four signals as predicates of one field, and \<open>isComboPii\<close> as a predicate of the record.\<close>

definition name_signal :: "string \<Rightarrow> json \<Rightarrow> bool" where
  "name_signal k x = (standalone k x = None \<and> str_lower k = ''name'' \<and> 2 \<le> length (str_split (value_str x)))"

definition email_signal :: "string \<Rightarrow> json \<Rightarrow> bool" where
  "email_signal k x = (standalone k x = None \<and> str_lower k = ''email'' \<and> CHR ''@'' \<in> set (value_str x))"

definition address_signal :: "string \<Rightarrow> json \<Rightarrow> bool" where
  "address_signal k x = (standalone k x = None \<and> str_lower k = ''address'' \<and> looksLikeAddress (value_str x))"

definition device_signal :: "string \<Rightarrow> json \<Rightarrow> bool" where
  "device_signal k x = (standalone k x = None \<and> str_lower k \<in> {''ip_address'', ''device_id''}
     \<and> value_str x \<noteq> [] \<and> value_str x \<noteq> ''0.0.0.0'')"

definition record_combo :: "pyrecord \<Rightarrow> bool" where
  "record_combo r =
     (2 \<le> length (filter id
        [list_ex (\<lambda>(k, x). name_signal k x) r, list_ex (\<lambda>(k, x). email_signal k x) r,
         list_ex (\<lambda>(k, x). address_signal k x) r, list_ex (\<lambda>(k, x). device_signal k x) r]))"

text \<open>The characters of the class \<open>[A-Za-z0-9.\-_]\<close>, listed.\<close>

definition userChars :: string where
  "userChars = ''ABCDEFGHIJKLMNOPQRSTUVWXYZabcdefghijklmnopqrstuvwxyz0123456789.-_''"

section \<open>String lemmas\<close>

declare str_split.simps [simp del] re_split_ws.simps [simp del] decimal.simps [simp del]

lemma dropWhile_id: "xs = [] \<or> \<not> P (hd xs) \<Longrightarrow> dropWhile P xs = xs"
  by (cases xs) auto

lemma dropWhile_hd: "dropWhile P xs = [] \<or> \<not> P (hd (dropWhile P xs))"
  using hd_dropWhile [of P xs] by blast

lemma mem_dropWhile: "x \<in> set xs \<Longrightarrow> \<not> P x \<Longrightarrow> x \<in> set (dropWhile P xs)"
  by (induction xs) auto

lemma set_str_strip: "set (str_strip s) \<subseteq> set s"
proof -
  have "set (dropWhile isspace (rev (dropWhile isspace s))) \<subseteq> set (rev (dropWhile isspace s))"
    by (rule set_dropWhileD [THEN subsetI])
  also have "\<dots> \<subseteq> set s"
    using set_dropWhileD [of _ isspace s] by auto
  finally show ?thesis by (simp add: str_strip_def)
qed

lemma mem_str_strip: "x \<in> set s \<Longrightarrow> \<not> isspace x \<Longrightarrow> x \<in> set (str_strip s)"
  by (simp add: str_strip_def mem_dropWhile)

lemma str_strip_ends:
  "str_strip s = [] \<or> (\<not> isspace (hd (str_strip s)) \<and> \<not> isspace (last (str_strip s)))"
proof (cases "str_strip s = []")
  case True
  then show ?thesis by simp
next
  case False
  define t where "t = dropWhile isspace s"
  define u where "u = dropWhile isspace (rev t)"
  have su: "str_strip s = rev u" by (simp add: str_strip_def t_def u_def)
  with False have une: "u \<noteq> []" by simp
  then have hu: "\<not> isspace (hd u)" using hd_dropWhile [of isspace "rev t"] by (simp add: u_def)
  from une have tne: "t \<noteq> []" by (auto simp: u_def)
  then have ht: "\<not> isspace (hd t)" using hd_dropWhile [of isspace s] by (simp add: t_def)
  have "rev t = takeWhile isspace (rev t) @ u" by (simp add: u_def)
  then have "t = rev u @ rev (takeWhile isspace (rev t))"
    by (metis rev_append rev_rev_ident)
  with une have "hd t = hd (rev u)" by (metis hd_append2 rev_is_Nil_conv)
  with ht have "\<not> isspace (hd (rev u))" by simp
  moreover have "last (rev u) = hd u" using une by (simp add: last_rev)
  ultimately show ?thesis using hu su by simp
qed

lemma str_strip_id:
  assumes "s = [] \<or> (\<not> isspace (hd s) \<and> \<not> isspace (last s))"
  shows "str_strip s = s"
proof (cases "s = []")
  case True
  then show ?thesis by (simp add: str_strip_def)
next
  case False
  with assms have h: "\<not> isspace (hd s)" and l: "\<not> isspace (last s)" by auto
  have 1: "dropWhile isspace s = s" using h False by (simp add: dropWhile_id)
  have "hd (rev s) = last s" using False by (simp add: hd_rev)
  then have 2: "dropWhile isspace (rev s) = rev s" using l by (simp add: dropWhile_id)
  show ?thesis by (simp add: str_strip_def 1 2)
qed

lemma str_strip_idem: "str_strip (str_strip s) = str_strip s"
  by (rule str_strip_id) (rule str_strip_ends)

lemma isspace_at: "\<not> isspace CHR ''@''"
  by code_simp

lemma at_in_strip: "CHR ''@'' \<in> set (str_strip s) \<longleftrightarrow> CHR ''@'' \<in> set s"
  using mem_str_strip [of "CHR ''@''" s] set_str_strip [of s] isspace_at by blast

lemma at_notin_sentinel: "CHR ''@'' \<notin> set sentinel"
  by code_simp

lemma maskUpi_sentinel_iff: "maskUpi v = sentinel \<longleftrightarrow> CHR ''@'' \<notin> set v"
proof (cases "CHR ''@'' \<in> set v")
  case True
  then have "CHR ''@'' \<in> set (str_strip v)" by (simp add: at_in_strip)
  then have "CHR ''@'' \<in> set (maskUpi v)"
    by (simp add: maskUpi_def Let_def split_first_def)
  with True show ?thesis using at_notin_sentinel by metis
next
  case False
  then show ?thesis by (simp add: maskUpi_def at_in_strip)
qed

lemma maskEmail_sentinel_iff: "maskEmail v = sentinel \<longleftrightarrow> CHR ''@'' \<notin> set v"
proof (cases "CHR ''@'' \<in> set v")
  case True
  then have "CHR ''@'' \<in> set (str_strip v)" by (simp add: at_in_strip)
  then have "CHR ''@'' \<in> set (maskEmail v)"
    by (simp add: maskEmail_def Let_def split_first_def)
  with True show ?thesis using at_notin_sentinel by metis
next
  case False
  then show ?thesis by (simp add: maskEmail_def at_in_strip)
qed

lemma maskPassport_invalid: "\<not> isPassport v \<Longrightarrow> maskPassport v = sentinel"
  by (simp add: maskPassport_def isPassport_def str_strip_idem)

lemma maskPhone_invalid: "\<not> is10DigitPhone v \<Longrightarrow> maskPhone v = sentinel"
  by (simp add: maskPhone_def is10DigitPhone_def)

lemma maskAadhar_invalid: "\<not> isAadhar v \<Longrightarrow> maskAadhar v = sentinel"
  by (simp add: maskAadhar_def isAadhar_def)

lemma split_at_first:
  "c \<in> set s \<Longrightarrow> s = takeWhile (\<lambda>x. x \<noteq> c) s @ c # tl (dropWhile (\<lambda>x. x \<noteq> c) s)"
proof -
  assume a: "c \<in> set s"
  then have ne: "dropWhile (\<lambda>x. x \<noteq> c) s \<noteq> []" by (simp add: dropWhile_eq_Nil_conv)
  then have "hd (dropWhile (\<lambda>x. x \<noteq> c) s) = c" using hd_dropWhile [of "\<lambda>x. x \<noteq> c" s] by simp
  with ne have "dropWhile (\<lambda>x. x \<noteq> c) s = c # tl (dropWhile (\<lambda>x. x \<noteq> c) s)"
    by (metis list.collapse)
  then show ?thesis by (metis takeWhile_dropWhile_id)
qed

lemma split_first_append:
  "c \<notin> set u \<Longrightarrow> split_first c (u @ c # h) = (u, h)"
  by (induction u) (auto simp: split_first_def)

lemma split_first_decomp:
  "c \<in> set s \<Longrightarrow> split_first c s = (u, h) \<longleftrightarrow> (s = u @ c # h \<and> c \<notin> set u)"
proof
  assume "c \<in> set s" "split_first c s = (u, h)"
  then show "s = u @ c # h \<and> c \<notin> set u"
    using split_at_first [of c s] by (auto simp: split_first_def dest: set_takeWhileD)
next
  assume "c \<in> set s" "s = u @ c # h \<and> c \<notin> set u"
  then show "split_first c s = (u, h)" by (simp add: split_first_append)
qed

lemma isUpi_decomp:
  "isUpi v \<longleftrightarrow>
     (\<exists>user handle. str_strip v = user @ CHR ''@'' # handle \<and> CHR ''@'' \<notin> set user
        \<and> fullmatch_user user
        \<and> str_lower (takeWhile (\<lambda>x. x \<noteq> CHR ''.'') handle) \<in> upiHandles)"
proof (cases "CHR ''@'' \<in> set (str_strip v)")
  case False
  then show ?thesis by (auto simp: isUpi_def)
next
  case True
  obtain u h where uh: "split_first CHR ''@'' (str_strip v) = (u, h)" by fastforce
  with True have d: "str_strip v = u @ CHR ''@'' # h" "CHR ''@'' \<notin> set u"
    by (simp_all add: split_first_decomp)
  have l: "isUpi v \<longleftrightarrow> fullmatch_user u \<and> str_lower (takeWhile (\<lambda>x. x \<noteq> CHR ''.'') h) \<in> upiHandles"
    using True uh by (simp add: isUpi_def)
  show ?thesis
  proof
    assume "isUpi v"
    with l d show "\<exists>user handle. str_strip v = user @ CHR ''@'' # handle \<and> CHR ''@'' \<notin> set user
        \<and> fullmatch_user user \<and> str_lower (takeWhile (\<lambda>x. x \<noteq> CHR ''.'') handle) \<in> upiHandles"
      by blast
  next
    assume "\<exists>user handle. str_strip v = user @ CHR ''@'' # handle \<and> CHR ''@'' \<notin> set user
        \<and> fullmatch_user user \<and> str_lower (takeWhile (\<lambda>x. x \<noteq> CHR ''.'') handle) \<in> upiHandles"
    then obtain u' h' where e: "str_strip v = u' @ CHR ''@'' # h'" "CHR ''@'' \<notin> set u'"
      "fullmatch_user u'" "str_lower (takeWhile (\<lambda>x. x \<noteq> CHR ''.'') h') \<in> upiHandles"
      by blast
    from e(1,2) True have "split_first CHR ''@'' (str_strip v) = (u', h')"
      by (simp add: split_first_decomp)
    with uh have "u' = u" "h' = h" by simp_all
    with e l show "isUpi v" by simp
  qed
qed

lemma str_split_Nil: "str_split [] = []"
  by (simp add: str_split.simps)

lemma classifiers_empty:
  "\<not> is10DigitPhone []" "\<not> isAadhar []" "\<not> isPassport []" "\<not> isUpi []" "\<not> looksLikeAddress []"
  by code_simp+

lemma value_str_JStr: "value_str (JStr s) = s"
  by (simp add: value_str_def)

section \<open>Lemmas about the scan loop\<close>

lemma redacted_scan_combo: "redacted (scan_combo k v st) = redacted st"
  by (simp add: scan_combo_def Let_def)

lemma standaloneHit_scan_combo: "standaloneHit (scan_combo k v st) = standaloneHit st"
  by (simp add: scan_combo_def Let_def)

lemma scan_field_standalone:
  "scan_field (key, x) st =
     (case standalone key x of
        Some m \<Rightarrow> st\<lparr>standaloneHit := True, redacted := AList.update key m (redacted st)\<rparr>
      | None \<Rightarrow> scan_combo (str_lower key) (value_str x) st)"
proof -
  define P1 where "P1 = (str_lower key \<in> phoneKeys \<and> is10DigitPhone (value_str x))"
  define P2 where "P2 = (str_lower key \<in> aadharKeys \<and> isAadhar (value_str x))"
  define P3 where "P3 = (str_lower key \<in> passportKeys \<and> isPassport (value_str x))"
  define P4 where "P4 = (str_lower key \<in> upiKeys \<and> isUpi (value_str x))"
  show ?thesis
    unfolding scan_field_def standalone_def Let_def fst_conv snd_conv
      P1_def [symmetric] P2_def [symmetric] P3_def [symmetric] P4_def [symmetric]
    by (cases P1; cases P2; cases P3; cases P4; simp)
qed

lemma scan_field_hit:
  "standalone key x = Some m \<Longrightarrow>
   scan_field (key, x) st = st\<lparr>standaloneHit := True, redacted := AList.update key m (redacted st)\<rparr>"
  by (simp add: scan_field_standalone)

lemma scan_field_no_hit:
  "standalone key x = None \<Longrightarrow> scan_field (key, x) st = scan_combo (str_lower key) (value_str x) st"
  by (simp add: scan_field_standalone)

lemma redacted_scan_field:
  "redacted (scan_field (key, x) st) =
     (case standalone key x of Some m \<Rightarrow> AList.update key m (redacted st) | None \<Rightarrow> redacted st)"
  by (cases "standalone key x") (simp_all add: scan_field_hit scan_field_no_hit redacted_scan_combo)

lemma standaloneHit_scan_field:
  "standaloneHit (scan_field (key, x) st) = (standaloneHit st \<or> standalone key x \<noteq> None)"
  by (cases "standalone key x") (simp_all add: scan_field_hit scan_field_no_hit standaloneHit_scan_combo)

lemma keys_update_present:
  "k \<in> set (map fst al) \<Longrightarrow> map fst (AList.update k v al) = map fst al"
  by (simp add: update_keys)

lemma keys_scan_field:
  "fst kv \<in> set (map fst (redacted st)) \<Longrightarrow> map fst (redacted (scan_field kv st)) = map fst (redacted st)"
  by (cases kv) (simp add: redacted_scan_field keys_update_present split: option.split)

lemma keys_fold_scan:
  "set (map fst xs) \<subseteq> set (map fst (redacted st)) \<Longrightarrow>
   map fst (redacted (fold scan_field xs st)) = map fst (redacted st)"
proof (induction xs arbitrary: st)
  case Nil
  then show ?case by simp
next
  case (Cons a xs)
  then have k: "map fst (redacted (scan_field a st)) = map fst (redacted st)"
    by (simp add: keys_scan_field)
  with Cons.prems have "set (map fst xs) \<subseteq> set (map fst (redacted (scan_field a st)))"
    by simp
  then have "map fst (redacted (fold scan_field xs (scan_field a st))) = map fst (redacted (scan_field a st))"
    by (rule Cons.IH)
  with k show ?case by simp
qed

lemma keys_update_lookup:
  assumes "map_of data k = Some x" and "map fst red = map fst data"
  shows "map fst (AList.update k v red) = map fst data"
proof -
  from assms(1) have "(k, x) \<in> set data" by (rule map_of_SomeD)
  then have "k \<in> set (map fst data)" by force
  with assms(2) have "k \<in> set (map fst red)" by simp
  then show ?thesis using assms(2) by (simp add: keys_update_present)
qed

lemma keys_mask_name_step:
  "map fst red = map fst data \<Longrightarrow> map fst (mask_name_step data red) = map fst data"
  by (simp add: mask_name_step_def keys_update_lookup split: option.split json.split)

lemma keys_mask_email_step:
  "map fst red = map fst data \<Longrightarrow> map fst (mask_email_step data red) = map fst data"
  by (simp add: mask_email_step_def keys_update_lookup split: option.split json.split)

lemma keys_mask_address_step:
  assumes "map fst red = map fst data" and "mask_address_step data red = Inr red'"
  shows "map fst red' = map fst data"
proof (cases "map_of data ''address''")
  case None
  with assms show ?thesis by (simp add: mask_address_step_def)
next
  case (Some x)
  with assms(2) obtain b where "red' = (if b then AList.update ''address'' (JStr sentinel) red else red)"
    by (auto simp: mask_address_step_def split: sum.splits)
  with Some assms(1) show ?thesis by (simp add: keys_update_lookup)
qed

lemma keys_mask_device_step:
  "map fst red = map fst data \<Longrightarrow> map fst (mask_device_step key data red) = map fst data"
  by (simp add: mask_device_step_def keys_update_lookup split: option.split)

lemma redacted_scan_init: "redacted (scan_init data) = data"
  by (simp add: scan_init_def)

lemma keys_loop: "map fst (redacted (fold scan_field r (scan_init r))) = map fst r"
  using keys_fold_scan [of r "scan_init r"] by (simp add: redacted_scan_init)

lemma standaloneHit_fold_mono:
  "standaloneHit st \<Longrightarrow> standaloneHit (fold scan_field xs st)"
  by (induction xs arbitrary: st) (auto simp: standaloneHit_scan_field)

lemma no_hit_fold_redacted:
  "\<not> standaloneHit (fold scan_field xs st) \<Longrightarrow> redacted (fold scan_field xs st) = redacted st"
proof (induction xs arbitrary: st)
  case Nil
  then show ?case by simp
next
  case (Cons a xs)
  obtain key x where a: "a = (key, x)" by (cases a)
  from Cons.prems have n: "\<not> standaloneHit (fold scan_field xs (scan_field a st))" by simp
  then have "\<not> standaloneHit (scan_field a st)" using standaloneHit_fold_mono by blast
  then have "standalone key x = None" by (simp add: a standaloneHit_scan_field)
  then have "redacted (scan_field a st) = redacted st" by (simp add: a redacted_scan_field)
  with Cons.IH [OF n] show ?case by simp
qed

lemma keys_detectAndRedact:
  "detectAndRedact r = Inr (red, pii) \<Longrightarrow> map fst red = map fst r"
proof -
  assume a: "detectAndRedact r = Inr (red, pii)"
  define st where "st = fold scan_field r (scan_init r)"
  have k0: "map fst (redacted st) = map fst r" by (simp add: st_def keys_loop)
  show ?thesis
  proof (cases "2 \<le> comboHits st")
    case False
    with a have "red = redacted st" by (simp add: detectAndRedact_def st_def Let_def)
    with k0 show ?thesis by simp
  next
    case True
    define r2 where "r2 = mask_email_step r (mask_name_step r (redacted st))"
    have k2: "map fst r2 = map fst r"
      by (simp add: r2_def keys_mask_email_step keys_mask_name_step k0)
    from a True obtain r3 where r3: "mask_address_step r r2 = Inr r3"
      and red: "red = mask_device_step ''device_id'' r (mask_device_step ''ip_address'' r r3)"
      by (auto simp: detectAndRedact_def st_def r2_def Let_def split: sum.splits)
    from k2 r3 have "map fst r3 = map fst r" by (rule keys_mask_address_step)
    then show ?thesis by (simp add: red keys_mask_device_step)
  qed
qed

section \<open>The loop as a map over the fields\<close>

lemma map_of_fold_scan:
  "distinct (map fst xs) \<Longrightarrow>
   map_of (redacted (fold scan_field xs st)) k =
     (case map_of xs k of
        None \<Rightarrow> map_of (redacted st) k
      | Some x \<Rightarrow> (case standalone k x of Some m \<Rightarrow> Some m | None \<Rightarrow> map_of (redacted st) k))"
proof (induction xs arbitrary: st)
  case Nil
  then show ?case by simp
next
  case (Cons a xs)
  obtain key x where a: "a = (key, x)" by (cases a)
  from Cons.prems have d: "distinct (map fst xs)" and nk: "key \<notin> fst ` set xs"
    by (simp_all add: a)
  have ih: "map_of (redacted (fold scan_field xs (scan_field a st))) k =
     (case map_of xs k of
        None \<Rightarrow> map_of (redacted (scan_field a st)) k
      | Some x \<Rightarrow> (case standalone k x of Some m \<Rightarrow> Some m
                    | None \<Rightarrow> map_of (redacted (scan_field a st)) k))"
    using d by (rule Cons.IH)
  have r: "map_of (redacted (scan_field a st)) k =
     (if k = key then (case standalone key x of Some m \<Rightarrow> Some m | None \<Rightarrow> map_of (redacted st) k)
      else map_of (redacted st) k)"
    by (simp add: a redacted_scan_field update_conv' split: option.split)
  show ?case
  proof (cases "k = key")
    case True
    with nk have "map_of xs k = None" by (simp add: map_of_eq_None_iff)
    with True ih r show ?thesis unfolding a by (simp split: option.split)
  next
    case False
    with ih r show ?thesis unfolding a by (simp split: option.split)
  qed
qed

lemma map_of_loop:
  "distinct (map fst r) \<Longrightarrow>
   map_of (redacted (fold scan_field r (scan_init r))) k =
     (case map_of r k of
        None \<Rightarrow> None
      | Some x \<Rightarrow> (case standalone k x of Some m \<Rightarrow> Some m | None \<Rightarrow> Some x))"
  by (simp add: map_of_fold_scan redacted_scan_init split: option.split)

section \<open>Splitting on whitespace\<close>

lemma str_split_ws_Cons: "isspace a \<Longrightarrow> str_split (a # t) = str_split t"
  by (subst str_split.simps, subst (2) str_split.simps) simp

lemma str_split_word_Cons:
  "\<not> isspace a \<Longrightarrow>
   str_split (a # t) = (a # takeWhile (\<lambda>x. \<not> isspace x) t) # str_split (dropWhile (\<lambda>x. \<not> isspace x) t)"
  by (subst str_split.simps) simp

lemma str_split_all_ws: "\<forall>x\<in>set w. isspace x \<Longrightarrow> str_split w = []"
  by (induction w) (simp_all add: str_split_Nil str_split_ws_Cons)

lemma str_split_dropWhile: "str_split (dropWhile isspace s) = str_split s"
  by (induction s) (simp_all add: str_split_ws_Cons)

lemma str_split_append_ws:
  "\<forall>x\<in>set w. isspace x \<Longrightarrow> str_split (u @ w) = str_split u"
proof (induction u rule: length_induct)
  case (1 u)
  show ?case
  proof (cases u)
    case Nil
    with 1 show ?thesis by (simp add: str_split_all_ws str_split_Nil)
  next
    case (Cons a t)
    show ?thesis
    proof (cases "isspace a")
      case True
      with 1 Cons show ?thesis by (simp add: str_split_ws_Cons)
    next
      case False
      show ?thesis
      proof (cases "\<exists>x\<in>set t. isspace x")
        case True
        then have tw: "takeWhile (\<lambda>x. \<not> isspace x) (t @ w) = takeWhile (\<lambda>x. \<not> isspace x) t"
          and dw: "dropWhile (\<lambda>x. \<not> isspace x) (t @ w) = dropWhile (\<lambda>x. \<not> isspace x) t @ w"
          by (auto simp: takeWhile_append1 dropWhile_append1)
        have "length (dropWhile (\<lambda>x. \<not> isspace x) t) < length u"
          using length_dropWhile_le [of "\<lambda>x. \<not> isspace x" t] Cons by simp
        with 1 have "str_split (dropWhile (\<lambda>x. \<not> isspace x) t @ w) = str_split (dropWhile (\<lambda>x. \<not> isspace x) t)"
          by blast
        with False Cons tw dw show ?thesis by (simp add: str_split_word_Cons)
      next
        case nows: False
        then have a: "\<forall>x\<in>set t. \<not> isspace x" by blast
        have tw: "takeWhile (\<lambda>x. \<not> isspace x) (t @ w) = t"
        proof -
          have "takeWhile (\<lambda>x. \<not> isspace x) (t @ w) = t @ takeWhile (\<lambda>x. \<not> isspace x) w"
            using a by (simp add: takeWhile_append2)
          moreover have "takeWhile (\<lambda>x. \<not> isspace x) w = []"
            using 1(2) by (cases w) auto
          ultimately show ?thesis by simp
        qed
        have dw: "dropWhile (\<lambda>x. \<not> isspace x) (t @ w) = w"
        proof -
          have "dropWhile (\<lambda>x. \<not> isspace x) (t @ w) = dropWhile (\<lambda>x. \<not> isspace x) w"
            using a by (simp add: dropWhile_append2)
          moreover have "dropWhile (\<lambda>x. \<not> isspace x) w = w"
            using 1(2) by (cases w) auto
          ultimately show ?thesis by simp
        qed
        have t1: "takeWhile (\<lambda>x. \<not> isspace x) t = t" and t2: "dropWhile (\<lambda>x. \<not> isspace x) t = []"
          using a by simp_all
        have "str_split (u @ w) = (a # t) # str_split w"
          using False Cons by (simp add: str_split_word_Cons tw dw)
        also have "\<dots> = [a # t]"
          using 1(2) by (simp add: str_split_all_ws)
        also have "\<dots> = str_split u"
          using False Cons by (simp add: str_split_word_Cons t1 t2 str_split_Nil)
        finally show ?thesis .
      qed
    qed
  qed
qed

lemma str_split_strip: "str_split (str_strip s) = str_split s"
proof -
  define t where "t = dropWhile isspace s"
  define w where "w = rev (takeWhile isspace (rev t))"
  have "rev t = takeWhile isspace (rev t) @ dropWhile isspace (rev t)" by simp
  then have "t = rev (dropWhile isspace (rev t)) @ w"
    unfolding w_def by (metis rev_append rev_rev_ident)
  then have t: "t = str_strip s @ w" by (simp add: str_strip_def t_def)
  have "\<forall>x\<in>set w. isspace x" by (auto simp: w_def dest: set_takeWhileD)
  then have "str_split (str_strip s @ w) = str_split (str_strip s)" by (rule str_split_append_ws)
  with t have "str_split (str_strip s) = str_split t" by simp
  then show ?thesis by (simp add: t_def str_split_dropWhile)
qed

lemma re_split_ws_tokens: "filter (\<lambda>p. p \<noteq> []) (re_split_ws s) = str_split s"
proof (induction s rule: length_induct)
  case (1 s)
  show ?case
  proof (cases s)
    case Nil
    then show ?thesis by (simp add: re_split_ws.simps str_split_Nil)
  next
    case (Cons a t)
    show ?thesis
    proof (cases "isspace a")
      case True
      have "length (dropWhile isspace t) < length s"
        using length_dropWhile_le [of isspace t] Cons by simp
      with 1 have "filter (\<lambda>p. p \<noteq> []) (re_split_ws (dropWhile isspace t)) = str_split (dropWhile isspace t)"
        by blast
      moreover have "re_split_ws s = [] # re_split_ws (dropWhile isspace t)"
        using True Cons by (subst re_split_ws.simps) simp
      ultimately show ?thesis using True Cons by (simp add: str_split_ws_Cons str_split_dropWhile)
    next
      case False
      show ?thesis
      proof (cases "dropWhile (\<lambda>x. \<not> isspace x) t")
        case Nil
        then have r: "re_split_ws s = [s]"
          using False Cons by (subst re_split_ws.simps) (simp del: dropWhile_eq_Nil_conv)
        from Nil have tk: "takeWhile (\<lambda>x. \<not> isspace x) t = t"
          by (metis append_Nil2 takeWhile_dropWhile_id)
        have "str_split s = [a # t]"
          using False by (simp add: Cons str_split_word_Cons tk Nil str_split_Nil)
        with r show ?thesis by (simp add: Cons)
      next
        case c: (Cons c cs)
        then have wc: "isspace c" using hd_dropWhile [of "\<lambda>x. \<not> isspace x" t] by force
        have "length cs < length s"
          using length_dropWhile_le [of "\<lambda>x. \<not> isspace x" t] c Cons by simp
        then have "length (dropWhile isspace cs) < length s"
          using length_dropWhile_le [of isspace cs] by simp
        with 1 have ih: "filter (\<lambda>p. p \<noteq> []) (re_split_ws (dropWhile isspace cs)) = str_split (dropWhile isspace cs)"
          by blast
        have "re_split_ws s = (a # takeWhile (\<lambda>x. \<not> isspace x) t) # re_split_ws (dropWhile isspace cs)"
          using False Cons c by (subst re_split_ws.simps) simp
        with ih False Cons c wc show ?thesis
          by (simp add: str_split_word_Cons str_split_ws_Cons str_split_dropWhile)
      qed
    qed
  qed
qed

section \<open>The name masker on its own output\<close>

lemma str_split_tokens: "\<forall>p\<in>set (str_split s). is_token p"
proof (induction s rule: length_induct)
  case (1 s)
  show ?case
  proof (cases s)
    case Nil
    then show ?thesis by (simp add: str_split_Nil)
  next
    case (Cons a t)
    show ?thesis
    proof (cases "isspace a")
      case True
      from Cons have "length t < length s" by simp
      with 1 have "\<forall>p\<in>set (str_split t). is_token p" by blast
      with True Cons show ?thesis by (simp add: str_split_ws_Cons)
    next
      case False
      have "length (dropWhile (\<lambda>x. \<not> isspace x) t) < length s"
        using length_dropWhile_le [of "\<lambda>x. \<not> isspace x" t] Cons by simp
      with 1 have "\<forall>p\<in>set (str_split (dropWhile (\<lambda>x. \<not> isspace x) t)). is_token p" by blast
      moreover have "is_token (a # takeWhile (\<lambda>x. \<not> isspace x) t)"
        using False by (auto simp: is_token_def dest: set_takeWhileD)
      ultimately show ?thesis using False Cons by (simp add: str_split_word_Cons)
    qed
  qed
qed

lemma isspace_space: "isspace CHR '' ''"
  by code_simp

lemma isspace_X: "\<not> isspace CHR ''X''"
  by code_simp

lemma str_split_token_sep:
  assumes "is_token p" and "isspace c"
  shows "str_split (p @ c # rest) = p # str_split rest"
proof -
  from assms(1) obtain a t where p: "p = a # t" and a: "\<not> isspace a" and t: "\<forall>x\<in>set t. \<not> isspace x"
    by (cases p) (auto simp: is_token_def)
  have tw: "takeWhile (\<lambda>x. \<not> isspace x) (t @ c # rest) = t"
    using t assms(2) by (simp add: takeWhile_append2)
  have dw: "dropWhile (\<lambda>x. \<not> isspace x) (t @ c # rest) = c # rest"
    using t assms(2) by (simp add: dropWhile_append2)
  show ?thesis using a assms(2) by (simp add: p str_split_word_Cons tw dw str_split_ws_Cons)
qed

lemma str_split_token: "is_token p \<Longrightarrow> str_split p = [p]"
proof -
  assume "is_token p"
  then obtain a t where p: "p = a # t" and a: "\<not> isspace a" and t: "\<forall>x\<in>set t. \<not> isspace x"
    by (cases p) (auto simp: is_token_def)
  have tw: "takeWhile (\<lambda>x. \<not> isspace x) t = t" and dw: "dropWhile (\<lambda>x. \<not> isspace x) t = []"
    using t by simp_all
  show ?thesis using a by (simp add: p str_split_word_Cons tw dw str_split_Nil)
qed

lemma str_split_join: "\<forall>p\<in>set ts. is_token p \<Longrightarrow> str_split (str_join '' '' ts) = ts"
proof (induction "'' ''" ts rule: str_join.induct)
  case 1
  then show ?case by (simp add: str_split_Nil)
next
  case (2 p)
  then show ?case by (simp add: str_split_token)
next
  case (3 p q ps)
  then have "str_split (str_join '' '' (q # ps)) = q # ps" by simp
  moreover have "str_split (p @ CHR '' '' # str_join '' '' (q # ps)) = p # str_split (str_join '' '' (q # ps))"
    using 3(2) by (intro str_split_token_sep) (simp_all add: isspace_space)
  ultimately show ?case by simp
qed

lemma maskToken_token: "is_token p \<Longrightarrow> is_token (maskToken p)"
  by (cases p) (auto simp: is_token_def maskToken_def isspace_X)

lemma maskToken_idem: "maskToken (maskToken p) = maskToken p"
  by (cases p) (simp_all add: maskToken_def)

lemma maskName_tokens:
  "str_split s \<noteq> [] \<Longrightarrow> maskName s = str_join '' '' (map maskToken (str_split s))"
  by (simp add: maskName_def Let_def re_split_ws_tokens str_split_strip)

lemma str_split_maskName:
  assumes "str_split s \<noteq> []"
  shows "str_split (maskName s) = map maskToken (str_split s)"
proof -
  have "\<forall>p\<in>set (map maskToken (str_split s)). is_token p"
    using str_split_tokens [of s] by (simp add: maskToken_token)
  then show ?thesis using assms by (simp add: maskName_tokens str_split_join)
qed

lemma maskName_idem:
  assumes "str_split s \<noteq> []"
  shows "maskName (maskName s) = maskName s"
proof -
  have sp: "str_split (maskName s) = map maskToken (str_split s)"
    using assms by (rule str_split_maskName)
  with assms have "str_split (maskName s) \<noteq> []" by simp
  then have "maskName (maskName s) = str_join '' '' (map maskToken (str_split (maskName s)))"
    by (rule maskName_tokens)
  also have "\<dots> = str_join '' '' (map maskToken (str_split s))"
    by (simp add: sp maskToken_idem comp_def)
  also have "\<dots> = maskName s" using assms by (simp add: maskName_tokens)
  finally show ?thesis .
qed

lemma length_str_split_maskName:
  "str_split s \<noteq> [] \<Longrightarrow> length (str_split (maskName s)) = length (str_split s)"
  by (simp add: str_split_maskName)

section \<open>The standalone and email maskers on their own output\<close>

lemma isdigit_X: "\<not> isdigit CHR ''X''"
  by code_simp

lemma isdigit_space: "\<not> isdigit CHR '' ''"
  by code_simp

lemma letter_not_space: "isAsciiLetter c \<Longrightarrow> \<not> isspace c"
  by (auto simp: isAsciiLetter_def isspace_def Let_def)

lemma filter_digits_id: "filter isdigit (re_sub_nondigits v) = re_sub_nondigits v"
  by (simp add: re_sub_nondigits_def)

lemma filter_take_digits: "filter isdigit (take n (filter isdigit v)) = take n (filter isdigit v)"
  by (rule filter_True) (auto dest: in_set_takeD)

lemma filter_drop_digits: "filter isdigit (drop n (filter isdigit v)) = drop n (filter isdigit v)"
  by (rule filter_True) (auto dest: in_set_dropD)

lemma maskPhone_not_phone: "is10DigitPhone v \<Longrightarrow> \<not> is10DigitPhone (maskPhone v)"
  by (simp add: is10DigitPhone_def maskPhone_def re_sub_nondigits_def last_n_def Let_def
      filter_take_digits filter_drop_digits isdigit_X)

lemma maskAadhar_not_aadhar: "isAadhar v \<Longrightarrow> \<not> isAadhar (maskAadhar v)"
  by (simp add: isAadhar_def maskAadhar_def re_sub_nondigits_def last_n_def Let_def
      filter_take_digits filter_drop_digits isdigit_X isdigit_space)

lemma maskPassport_not_passport:
  assumes "isPassport v"
  shows "\<not> isPassport (maskPassport v)"
proof -
  from assms obtain c cs where v: "str_strip v = c # cs" and c: "isAsciiLetter c"
    and n: "length cs = 7 \<or> length cs = 8"
    by (auto simp: isPassport_def fullmatch_passport_def split: list.splits)
  from assms have "isPassport (str_strip v)" by (simp add: isPassport_def str_strip_idem)
  then have m: "maskPassport v = c # replicate (length cs) CHR ''X''"
    by (simp add: maskPassport_def v)
  from n obtain k where k: "length cs = Suc k" by (cases "length cs") auto
  have "str_strip (c # replicate (length cs) CHR ''X'') = c # replicate (length cs) CHR ''X''"
    using c by (intro str_strip_id) (simp add: letter_not_space isspace_X k)
  then show ?thesis
    by (simp add: m isPassport_def fullmatch_passport_def k isdigit_X)
qed

lemma at_rebuild:
  assumes v: "str_strip s = u @ CHR ''@'' # h"
    and e: "u' = [] \<longleftrightarrow> u = []" and hd: "u \<noteq> [] \<Longrightarrow> hd u' = hd u"
  shows "str_strip (u' @ CHR ''@'' # h) = u' @ CHR ''@'' # h"
proof (rule str_strip_id)
  have ne: "str_strip s \<noteq> []" by (simp add: v)
  with str_strip_ends [of s] have h1: "\<not> isspace (hd (str_strip s))" and l1: "\<not> isspace (last (str_strip s))"
    by auto
  have "hd (u' @ CHR ''@'' # h) = hd (str_strip s)"
    using e hd by (cases "u = []") (simp_all add: v)
  moreover have "last (u' @ CHR ''@'' # h) = last (str_strip s)"
    by (simp add: v)
  ultimately show "u' @ CHR ''@'' # h = [] \<or>
    \<not> isspace (hd (u' @ CHR ''@'' # h)) \<and> \<not> isspace (last (u' @ CHR ''@'' # h))"
    using h1 l1 by simp
qed

lemma email_local_props:
  "(email_local l = [] \<longleftrightarrow> l = [])" "l \<noteq> [] \<Longrightarrow> hd (email_local l) = hd l"
  "CHR ''@'' \<notin> set l \<Longrightarrow> CHR ''@'' \<notin> set (email_local l)"
  "email_local (email_local l) = email_local l"
proof -
  show "(email_local l = [] \<longleftrightarrow> l = [])" by (cases l) (auto simp: email_local_def)
  show "l \<noteq> [] \<Longrightarrow> hd (email_local l) = hd l" by (cases l) (auto simp: email_local_def)
  show "CHR ''@'' \<notin> set l \<Longrightarrow> CHR ''@'' \<notin> set (email_local l)"
    by (auto simp: email_local_def dest: in_set_takeD)
  show "email_local (email_local l) = email_local l"
  proof (cases "length l \<le> 2")
    case True
    then have "length (email_local l) = length l" by (cases l) (auto simp: email_local_def)
    with True show ?thesis by (cases l) (auto simp: email_local_def)
  next
    case False
    then have "email_local l = take 2 l @ ''XXX''" by (simp add: email_local_def)
    with False show ?thesis by (simp add: email_local_def)
  qed
qed

lemma upi_user_props:
  "(upi_user l = [] \<longleftrightarrow> l = [])" "l \<noteq> [] \<Longrightarrow> hd (upi_user l) = hd l"
  "CHR ''@'' \<notin> set l \<Longrightarrow> CHR ''@'' \<notin> set (upi_user l)"
  "upi_user (upi_user l) = upi_user l"
proof -
  show "(upi_user l = [] \<longleftrightarrow> l = [])" by (cases l) (auto simp: upi_user_def)
  show "l \<noteq> [] \<Longrightarrow> hd (upi_user l) = hd l" by (cases l) (auto simp: upi_user_def)
  show "CHR ''@'' \<notin> set l \<Longrightarrow> CHR ''@'' \<notin> set (upi_user l)"
    by (auto simp: upi_user_def last_n_def dest: in_set_takeD in_set_dropD)
  have len: "length (upi_user l) = length l"
    by (cases l) (auto simp: upi_user_def last_n_def)
  show "upi_user (upi_user l) = upi_user l"
  proof (cases "length l \<le> 4")
    case True
    with len show ?thesis by (cases l) (auto simp: upi_user_def)
  next
    case False
    then have u: "upi_user l = take 2 l @ replicate (length l - 4) CHR ''X'' @ last_n 2 l"
      by (simp add: upi_user_def)
    have "last_n 2 (upi_user l) = last_n 2 l"
      using False by (simp add: u last_n_def)
    moreover have "take 2 (upi_user l) = take 2 l" using False by (simp add: u)
    ultimately show ?thesis using False len by (simp add: upi_user_def)
  qed
qed

lemma maskEmail_split:
  assumes "str_strip s = u @ CHR ''@'' # h" and "CHR ''@'' \<notin> set u"
  shows "maskEmail s = email_local u @ CHR ''@'' # h"
proof -
  have "split_first CHR ''@'' (str_strip s) = (u, h)"
    using assms by (simp add: split_first_append)
  then show ?thesis using assms(1) by (simp add: maskEmail_def email_local_def)
qed

lemma maskUpi_split:
  assumes "str_strip s = u @ CHR ''@'' # h" and "CHR ''@'' \<notin> set u"
  shows "maskUpi s = upi_user u @ CHR ''@'' # h"
proof -
  have "split_first CHR ''@'' (str_strip s) = (u, h)"
    using assms by (simp add: split_first_append)
  then show ?thesis using assms(1) by (simp add: maskUpi_def upi_user_def)
qed

lemma at_decomp:
  assumes "CHR ''@'' \<in> set s"
  obtains u h where "str_strip s = u @ CHR ''@'' # h" and "CHR ''@'' \<notin> set u"
proof -
  from assms have "CHR ''@'' \<in> set (str_strip s)" by (simp add: at_in_strip)
  then have "str_strip s = takeWhile (\<lambda>x. x \<noteq> CHR ''@'') (str_strip s) @ CHR ''@'' #
      tl (dropWhile (\<lambda>x. x \<noteq> CHR ''@'') (str_strip s))"
    by (rule split_at_first)
  moreover have "CHR ''@'' \<notin> set (takeWhile (\<lambda>x. x \<noteq> CHR ''@'') (str_strip s))"
    by (auto dest: set_takeWhileD)
  ultimately show ?thesis using that by blast
qed

lemma maskEmail_idem:
  assumes "CHR ''@'' \<in> set s"
  shows "maskEmail (maskEmail s) = maskEmail s" and "CHR ''@'' \<in> set (maskEmail s)"
proof -
  from assms obtain u h where v: "str_strip s = u @ CHR ''@'' # h" and u: "CHR ''@'' \<notin> set u"
    by (rule at_decomp)
  have m: "maskEmail s = email_local u @ CHR ''@'' # h" using v u by (rule maskEmail_split)
  have "str_strip (email_local u @ CHR ''@'' # h) = email_local u @ CHR ''@'' # h"
    using v by (rule at_rebuild) (simp_all add: email_local_props)
  then have "maskEmail (email_local u @ CHR ''@'' # h) = email_local (email_local u) @ CHR ''@'' # h"
    using u by (intro maskEmail_split) (simp_all add: email_local_props)
  then show "maskEmail (maskEmail s) = maskEmail s" by (simp add: m email_local_props)
  show "CHR ''@'' \<in> set (maskEmail s)" by (simp add: m)
qed

lemma maskUpi_idem:
  assumes "CHR ''@'' \<in> set s"
  shows "maskUpi (maskUpi s) = maskUpi s"
proof -
  from assms obtain u h where v: "str_strip s = u @ CHR ''@'' # h" and u: "CHR ''@'' \<notin> set u"
    by (rule at_decomp)
  have m: "maskUpi s = upi_user u @ CHR ''@'' # h" using v u by (rule maskUpi_split)
  have "str_strip (upi_user u @ CHR ''@'' # h) = upi_user u @ CHR ''@'' # h"
    using v by (rule at_rebuild) (simp_all add: upi_user_props)
  then have "maskUpi (upi_user u @ CHR ''@'' # h) = upi_user (upi_user u) @ CHR ''@'' # h"
    using u by (intro maskUpi_split) (simp_all add: upi_user_props)
  then show "maskUpi (maskUpi s) = maskUpi s" by (simp add: m upi_user_props)
qed

lemma isUpi_has_at: "isUpi v \<Longrightarrow> CHR ''@'' \<in> set v"
  by (auto simp: isUpi_def at_in_strip split: if_splits)

section \<open>Masking one field twice\<close>

lemma lower_combo_keys:
  "str_lower ''name'' = ''name''" "str_lower ''email'' = ''email''"
  "str_lower ''address'' = ''address''" "str_lower ''ip_address'' = ''ip_address''"
  "str_lower ''device_id'' = ''device_id''"
  by code_simp+

lemma standalone_key:
  "standalone k x = Some m \<Longrightarrow>
   str_lower k \<in> phoneKeys \<or> str_lower k \<in> aadharKeys \<or> str_lower k \<in> passportKeys \<or> str_lower k \<in> upiKeys"
  unfolding standalone_def Let_def by (auto split: if_splits)

lemma standalone_keys_not_combo:
  "k \<in> phoneKeys \<or> k \<in> aadharKeys \<or> k \<in> passportKeys \<or> k \<in> upiKeys \<Longrightarrow>
   k \<noteq> ''name'' \<and> k \<noteq> ''email'' \<and> k \<noteq> ''address'' \<and> k \<noteq> ''ip_address'' \<and> k \<noteq> ''device_id''"
  by (auto simp: phoneKeys_def aadharKeys_def passportKeys_def upiKeys_def)

lemma key_sets_disjoint:
  "k \<in> phoneKeys \<Longrightarrow> k \<notin> aadharKeys \<and> k \<notin> passportKeys \<and> k \<notin> upiKeys"
  "k \<in> aadharKeys \<Longrightarrow> k \<notin> phoneKeys \<and> k \<notin> passportKeys \<and> k \<notin> upiKeys"
  "k \<in> passportKeys \<Longrightarrow> k \<notin> phoneKeys \<and> k \<notin> aadharKeys \<and> k \<notin> upiKeys"
  "k \<in> upiKeys \<Longrightarrow> k \<notin> phoneKeys \<and> k \<notin> aadharKeys \<and> k \<notin> passportKeys"
  by (auto simp: phoneKeys_def aadharKeys_def passportKeys_def upiKeys_def)

lemma standalone_lower_not_combo:
  assumes "standalone k x = Some m"
  shows "str_lower k \<noteq> ''name''" "str_lower k \<noteq> ''email''" "str_lower k \<noteq> ''address''"
    "str_lower k \<noteq> ''ip_address''" "str_lower k \<noteq> ''device_id''"
  using standalone_keys_not_combo [OF standalone_key [OF assms]] by simp_all

lemma combo_key_standalone: "combo_key k \<Longrightarrow> standalone k x = None"
proof (rule ccontr)
  assume ck: "combo_key k" and "standalone k x \<noteq> None"
  then obtain m where m: "standalone k x = Some m" by blast
  from ck have "str_lower k = k" by (auto simp: combo_key_def lower_combo_keys)
  with standalone_lower_not_combo [OF m] ck show False by (simp add: combo_key_def)
qed

lemma combo_mask_key: "combo_mask k x = Some m \<Longrightarrow> combo_key k"
  by (auto simp: combo_mask_def combo_key_def split: if_splits)

lemma combo_key_base: "combo_key k \<Longrightarrow> base_value k x = x"
  by (simp add: base_value_def combo_key_standalone)

lemma standalone_idem:
  assumes "standalone k x = Some m"
  shows "standalone k m = None \<or> standalone k m = Some m"
proof -
  define l where "l = str_lower k"
  define v where "v = value_str x"
  consider (phone) "l \<in> phoneKeys" "is10DigitPhone v" "m = JStr (maskPhone v)"
    | (aadhar) "l \<in> aadharKeys" "isAadhar v" "m = JStr (maskAadhar v)"
    | (passport) "l \<in> passportKeys" "isPassport v" "m = JStr (maskPassport v)"
    | (upi) "l \<in> upiKeys" "isUpi v" "m = JStr (maskUpi v)"
    using assms unfolding standalone_def Let_def l_def v_def by (auto split: if_splits)
  then show ?thesis
  proof cases
    case phone
    then have "standalone k m = None"
      unfolding standalone_def Let_def
      using key_sets_disjoint(1) [of l] by (simp add: l_def [symmetric] value_str_JStr maskPhone_not_phone)
    then show ?thesis by simp
  next
    case aadhar
    then have "standalone k m = None"
      unfolding standalone_def Let_def
      using key_sets_disjoint(2) [of l] by (simp add: l_def [symmetric] value_str_JStr maskAadhar_not_aadhar)
    then show ?thesis by simp
  next
    case passport
    then have "standalone k m = None"
      unfolding standalone_def Let_def
      using key_sets_disjoint(3) [of l] by (simp add: l_def [symmetric] value_str_JStr maskPassport_not_passport)
    then show ?thesis by simp
  next
    case upi
    then have "maskUpi (maskUpi v) = maskUpi v" by (simp add: maskUpi_idem isUpi_has_at)
    with upi show ?thesis
      unfolding standalone_def Let_def
      using key_sets_disjoint(4) [of l] by (simp add: l_def [symmetric] value_str_JStr)
  qed
qed

lemma base_value_idem: "base_value k (base_value k x) = base_value k x"
proof (cases "standalone k x")
  case None
  then show ?thesis by (simp add: base_value_def)
next
  case (Some m)
  with standalone_idem [OF Some] show ?thesis by (auto simp: base_value_def)
qed

lemma sentinel_not_address: "looksLikeAddress_any (JStr sentinel) = Inr False"
  by code_simp

lemma truthy_sentinel: "truthy (JStr sentinel)"
  by code_simp

lemma combo_mask_idem:
  assumes "combo_mask k x = Some m"
  shows "combo_mask k m = None \<or> combo_mask k m = Some m"
proof -
  consider (name) s where "k = ''name''" "x = JStr s" "2 \<le> length (str_split s)" "m = JStr (maskName s)"
    | (email) s where "k = ''email''" "x = JStr s" "CHR ''@'' \<in> set s" "m = JStr (maskEmail s)"
    | (address) "k = ''address''" "m = JStr sentinel"
    | (device) "k = ''ip_address'' \<or> k = ''device_id''" "m = JStr sentinel"
    using assms unfolding combo_mask_def by (auto split: if_splits json.splits)
  then show ?thesis
  proof cases
    case name
    then have ne: "str_split s \<noteq> []" by auto
    then have "maskName (maskName s) = maskName s" "length (str_split (maskName s)) = length (str_split s)"
      by (simp_all add: maskName_idem length_str_split_maskName)
    with name show ?thesis by (simp add: combo_mask_def)
  next
    case email
    then show ?thesis by (simp add: combo_mask_def maskEmail_idem)
  next
    case address
    then show ?thesis by (simp add: combo_mask_def sentinel_not_address)
  next
    case device
    then show ?thesis by (auto simp: combo_mask_def truthy_sentinel)
  qed
qed

lemma final_value_idem:
  assumes "c' \<longrightarrow> c"
  shows "final_value c' k (final_value c k x) = final_value c k x"
proof (cases "c \<and> combo_mask k x \<noteq> None")
  case True
  then obtain m where m: "combo_mask k x = Some m" and c: c by blast
  then have f: "final_value c k x = m" by (simp add: final_value_def)
  from m have ck: "combo_key k" by (rule combo_mask_key)
  have "final_value c' k m = m"
    using combo_mask_idem [OF m] ck by (auto simp: final_value_def combo_key_base)
  then show ?thesis by (simp add: f)
next
  case False
  then have f: "final_value c k x = base_value k x" by (auto simp: final_value_def)
  have "final_value c' k (base_value k x) = base_value k x"
  proof (cases c')
    case False
    then show ?thesis by (simp add: final_value_def base_value_idem)
  next
    case True
    with assms have c by simp
    with \<open>\<not> (c \<and> combo_mask k x \<noteq> None)\<close> have n: "combo_mask k x = None" by simp
    show ?thesis
    proof (cases "combo_key k")
      case True
      then show ?thesis using n by (simp add: final_value_def combo_key_base)
    next
      case False
      then have "combo_mask k (base_value k x) = None"
        using combo_mask_key [of k "base_value k x"] by (cases "combo_mask k (base_value k x)") auto
      then show ?thesis by (simp add: final_value_def base_value_idem)
    qed
  qed
  then show ?thesis by (simp only: f)
qed

section \<open>The returned record, field by field\<close>

lemma combo_flags_shape:
  "(let st1 = (if A then st\<lparr>hasFullName := True\<rparr> else st);
        st2 = (if B then st1\<lparr>hasEmail := True\<rparr> else st1);
        st3 = (if C then st2\<lparr>hasAddress := True\<rparr> else st2)
    in if D then st3\<lparr>hasDeviceOrIp := True\<rparr> else st3)
   = st\<lparr>hasFullName := hasFullName st \<or> A, hasEmail := hasEmail st \<or> B,
        hasAddress := hasAddress st \<or> C, hasDeviceOrIp := hasDeviceOrIp st \<or> D\<rparr>"
  by (cases A; cases B; cases C; cases D; simp add: Let_def)

lemma scan_combo_flags:
  "scan_combo k v st =
     st\<lparr>hasFullName := hasFullName st \<or> (k = ''name'' \<and> 2 \<le> length (str_split v)),
        hasEmail := hasEmail st \<or> (k = ''email'' \<and> CHR ''@'' \<in> set v),
        hasAddress := hasAddress st \<or> (k = ''address'' \<and> looksLikeAddress v),
        hasDeviceOrIp := hasDeviceOrIp st \<or>
          (k \<in> {''ip_address'', ''device_id''} \<and> v \<noteq> [] \<and> v \<noteq> ''0.0.0.0'')\<rparr>"
  unfolding scan_combo_def by (rule combo_flags_shape)

lemma flags_scan_combo:
  "hasFullName (scan_combo k v st) = (hasFullName st \<or> (k = ''name'' \<and> 2 \<le> length (str_split v)))"
  "hasEmail (scan_combo k v st) = (hasEmail st \<or> (k = ''email'' \<and> CHR ''@'' \<in> set v))"
  "hasAddress (scan_combo k v st) = (hasAddress st \<or> (k = ''address'' \<and> looksLikeAddress v))"
  "hasDeviceOrIp (scan_combo k v st) =
     (hasDeviceOrIp st \<or> (k \<in> {''ip_address'', ''device_id''} \<and> v \<noteq> [] \<and> v \<noteq> ''0.0.0.0''))"
  unfolding scan_combo_flags by simp_all

lemma flags_scan_field:
  "hasFullName (scan_field (k, x) st) = (hasFullName st \<or> name_signal k x)"
  "hasEmail (scan_field (k, x) st) = (hasEmail st \<or> email_signal k x)"
  "hasAddress (scan_field (k, x) st) = (hasAddress st \<or> address_signal k x)"
  "hasDeviceOrIp (scan_field (k, x) st) = (hasDeviceOrIp st \<or> device_signal k x)"
  by (cases "standalone k x";
      simp add: scan_field_hit scan_field_no_hit flags_scan_combo
        name_signal_def email_signal_def address_signal_def device_signal_def)+

lemma hasFullName_fold_scan:
  "hasFullName (fold scan_field xs st) = (hasFullName st \<or> list_ex (\<lambda>(k, x). name_signal k x) xs)"
proof (induction xs arbitrary: st)
  case Nil
  then show ?case by simp
next
  case (Cons a xs)
  obtain k x where "a = (k, x)" by (cases a)
  then show ?case by (simp add: Cons.IH flags_scan_field(1) disj_assoc)
qed

lemma hasEmail_fold_scan:
  "hasEmail (fold scan_field xs st) = (hasEmail st \<or> list_ex (\<lambda>(k, x). email_signal k x) xs)"
proof (induction xs arbitrary: st)
  case Nil
  then show ?case by simp
next
  case (Cons a xs)
  obtain k x where "a = (k, x)" by (cases a)
  then show ?case by (simp add: Cons.IH flags_scan_field(2) disj_assoc)
qed

lemma hasAddress_fold_scan:
  "hasAddress (fold scan_field xs st) = (hasAddress st \<or> list_ex (\<lambda>(k, x). address_signal k x) xs)"
proof (induction xs arbitrary: st)
  case Nil
  then show ?case by simp
next
  case (Cons a xs)
  obtain k x where "a = (k, x)" by (cases a)
  then show ?case by (simp add: Cons.IH flags_scan_field(3) disj_assoc)
qed

lemma hasDeviceOrIp_fold_scan:
  "hasDeviceOrIp (fold scan_field xs st) = (hasDeviceOrIp st \<or> list_ex (\<lambda>(k, x). device_signal k x) xs)"
proof (induction xs arbitrary: st)
  case Nil
  then show ?case by simp
next
  case (Cons a xs)
  obtain k x where "a = (k, x)" by (cases a)
  then show ?case by (simp add: Cons.IH flags_scan_field(4) disj_assoc)
qed

lemmas flags_fold_scan =
  hasFullName_fold_scan hasEmail_fold_scan hasAddress_fold_scan hasDeviceOrIp_fold_scan

lemma comboHits_loop: "(2 \<le> comboHits (fold scan_field r (scan_init r))) = record_combo r"
  by (simp add: comboHits_def record_combo_def flags_fold_scan scan_init_def)

lemma map_of_loop_base:
  "distinct (map fst r) \<Longrightarrow>
   map_of (redacted (fold scan_field r (scan_init r))) k = map_option (base_value k) (map_of r k)"
  by (simp add: map_of_loop base_value_def split: option.split)

lemma map_of_mask_name_step:
  "map_of (mask_name_step data red) k =
     (if k = ''name'' then
        (case map_of data ''name'' of
           Some x \<Rightarrow> (case combo_mask ''name'' x of Some m \<Rightarrow> Some m | None \<Rightarrow> map_of red k)
         | None \<Rightarrow> map_of red k)
      else map_of red k)"
  by (simp add: mask_name_step_def combo_mask_def update_conv' split: option.split json.split)

lemma map_of_mask_email_step:
  "map_of (mask_email_step data red) k =
     (if k = ''email'' then
        (case map_of data ''email'' of
           Some x \<Rightarrow> (case combo_mask ''email'' x of Some m \<Rightarrow> Some m | None \<Rightarrow> map_of red k)
         | None \<Rightarrow> map_of red k)
      else map_of red k)"
  by (simp add: mask_email_step_def combo_mask_def update_conv' split: option.split json.split)

lemma map_of_mask_address_step:
  assumes "mask_address_step data red = Inr red'"
  shows "map_of red' k =
     (if k = ''address'' then
        (case map_of data ''address'' of
           Some x \<Rightarrow> (case combo_mask ''address'' x of Some m \<Rightarrow> Some m | None \<Rightarrow> map_of red k)
         | None \<Rightarrow> map_of red k)
      else map_of red k)"
proof (cases "map_of data ''address''")
  case None
  with assms show ?thesis by (simp add: mask_address_step_def)
next
  case (Some x)
  with assms obtain b where b: "looksLikeAddress_any x = Inr b"
    and r: "red' = (if b then AList.update ''address'' (JStr sentinel) red else red)"
    by (auto simp: mask_address_step_def split: sum.splits)
  show ?thesis by (cases b) (simp_all add: Some r b combo_mask_def update_conv')
qed

lemma map_of_mask_device_step:
  assumes "key = ''ip_address'' \<or> key = ''device_id''"
  shows "map_of (mask_device_step key data red) k =
     (if k = key then
        (case map_of data key of
           Some x \<Rightarrow> (case combo_mask key x of Some m \<Rightarrow> Some m | None \<Rightarrow> map_of red k)
         | None \<Rightarrow> map_of red k)
      else map_of red k)"
  using assms by (auto simp: mask_device_step_def combo_mask_def update_conv' split: option.split)

lemma combo_mask_not_key: "\<not> combo_key k \<Longrightarrow> combo_mask k x = None"
  using combo_mask_key [of k x] by (cases "combo_mask k x") auto

lemma detectAndRedact_cases:
  assumes "detectAndRedact r = Inr (red, pii)"
  obtains (plain) "\<not> record_combo r" "red = redacted (fold scan_field r (scan_init r))"
  | (combo) r3 where "record_combo r"
      "mask_address_step r (mask_email_step r (mask_name_step r (redacted (fold scan_field r (scan_init r))))) = Inr r3"
      "red = mask_device_step ''device_id'' r (mask_device_step ''ip_address'' r r3)"
proof (cases "record_combo r")
  case False
  with assms have "red = redacted (fold scan_field r (scan_init r))"
    by (simp add: detectAndRedact_def Let_def comboHits_loop)
  with False plain show ?thesis by blast
next
  case True
  with assms obtain r3 where
    "mask_address_step r (mask_email_step r (mask_name_step r (redacted (fold scan_field r (scan_init r))))) = Inr r3"
    "red = mask_device_step ''device_id'' r (mask_device_step ''ip_address'' r r3)"
    by (auto simp: detectAndRedact_def Let_def comboHits_loop split: sum.splits)
  with True combo show ?thesis by blast
qed

lemma pipeline_map_of:
  assumes "mask_address_step r (mask_email_step r (mask_name_step r red0)) = Inr r3"
  shows "map_of (mask_device_step ''device_id'' r (mask_device_step ''ip_address'' r r3)) k =
     (case map_of r k of
        Some x \<Rightarrow> (case combo_mask k x of Some m \<Rightarrow> Some m | None \<Rightarrow> map_of red0 k)
      | None \<Rightarrow> map_of red0 k)"
proof -
  note s1 = map_of_mask_name_step [of r] and s2 = map_of_mask_email_step [of r]
    and s3 = map_of_mask_address_step [OF assms]
    and s4 = map_of_mask_device_step [of "''ip_address''" r, OF disjI1, OF refl]
    and s5 = map_of_mask_device_step [of "''device_id''" r, OF disjI2, OF refl]
  let ?P = "\<lambda>j. map_of (mask_device_step ''device_id'' r (mask_device_step ''ip_address'' r r3)) j =
     (case map_of r j of
        Some x \<Rightarrow> (case combo_mask j x of Some m \<Rightarrow> Some m | None \<Rightarrow> map_of red0 j)
      | None \<Rightarrow> map_of red0 j)"
  have n: "?P ''name''"
    by (simp add: s5 s4 s3 s2 s1 split: option.split)
  have e: "?P ''email''"
    by (simp add: s5 s4 s3 s2 s1 split: option.split)
  have a: "?P ''address''"
    by (simp add: s5 s4 s3 s2 s1 split: option.split)
  have i: "?P ''ip_address''"
    by (simp add: s5 s4 s3 s2 s1 split: option.split)
  have v: "?P ''device_id''"
    by (simp add: s5 s4 s3 s2 s1 split: option.split)
  have o: "?P k" if "\<not> combo_key k"
  proof -
    from that have "map_of (mask_device_step ''device_id'' r (mask_device_step ''ip_address'' r r3)) k
        = map_of red0 k"
      by (simp add: s5 s4 s3 s2 s1 combo_key_def)
    with that show ?thesis
      by (cases "map_of r k") (simp_all add: combo_mask_not_key)
  qed
  show "?P k"
  proof (cases "combo_key k")
    case False
    then show ?thesis by (rule o)
  next
    case True
    then have "k = ''name'' \<or> k = ''email'' \<or> k = ''address'' \<or> k = ''ip_address'' \<or> k = ''device_id''"
      unfolding combo_key_def .
    then show ?thesis
    proof (elim disjE)
      assume k: "k = ''name''"
      show ?thesis unfolding k by (rule n)
    next
      assume k: "k = ''email''"
      show ?thesis unfolding k by (rule e)
    next
      assume k: "k = ''address''"
      show ?thesis unfolding k by (rule a)
    next
      assume k: "k = ''ip_address''"
      show ?thesis unfolding k by (rule i)
    next
      assume k: "k = ''device_id''"
      show ?thesis unfolding k by (rule v)
    qed
  qed
qed

lemma map_of_plain:
  assumes d: "distinct (map fst r)" and "\<not> record_combo r"
  shows "map_of (redacted (fold scan_field r (scan_init r))) k
     = map_option (final_value (record_combo r) k) (map_of r k)"
  using assms by (cases "map_of r k") (simp_all add: map_of_loop_base final_value_def)

lemma map_of_combo:
  assumes d: "distinct (map fst r)" and c: "record_combo r"
    and m: "mask_address_step r (mask_email_step r (mask_name_step r (redacted (fold scan_field r (scan_init r))))) = Inr r3"
  shows "map_of (mask_device_step ''device_id'' r (mask_device_step ''ip_address'' r r3)) k
     = map_option (final_value (record_combo r) k) (map_of r k)"
proof -
  have s0: "map_of (redacted (fold scan_field r (scan_init r))) k = map_option (base_value k) (map_of r k)"
    using d by (rule map_of_loop_base)
  note p = pipeline_map_of [OF m, of k]
  show ?thesis
  proof (cases "map_of r k")
    case None
    then show ?thesis by (simp add: p s0)
  next
    case (Some x)
    then show ?thesis
      by (cases "combo_mask k x") (simp_all add: p s0 final_value_def c)
  qed
qed

lemma detectAndRedact_map_of:
  assumes d: "distinct (map fst r)" and a: "detectAndRedact r = Inr (red, pii)"
  shows "map_of red k = map_option (final_value (record_combo r) k) (map_of r k)"
  using a
proof (cases rule: detectAndRedact_cases)
  case plain
  from d plain(1) show ?thesis unfolding plain(2) by (rule map_of_plain)
next
  case (combo r3)
  from d combo(1,2) show ?thesis unfolding combo(3) by (rule map_of_combo)
qed

section \<open>Classifying the redacted record\<close>

lemma alist_eqI:
  assumes k: "map fst ys = map fst xs" and d: "distinct (map fst xs)"
    and m: "\<And>k. map_of ys k = map_of xs k"
  shows "ys = xs"
proof (rule nth_equalityI)
  from k show l: "length ys = length xs" by (metis length_map)
  fix i assume i: "i < length ys"
  with l have ix: "i < length xs" by simp
  from k i ix have f: "fst (ys ! i) = fst (xs ! i)" by (metis nth_map)
  from d k have dy: "distinct (map fst ys)" by simp
  have "map_of xs (fst (xs ! i)) = Some (snd (xs ! i))"
    using d ix by (simp add: map_of_eq_Some_iff)
  moreover have "map_of ys (fst (ys ! i)) = Some (snd (ys ! i))"
    using dy i by (simp add: map_of_eq_Some_iff)
  ultimately have "snd (ys ! i) = snd (xs ! i)" using m f by simp
  with f show "ys ! i = xs ! i" by (simp add: prod_eq_iff)
qed

lemma list_ex_mapped:
  assumes k: "map fst ys = map fst xs" and d: "distinct (map fst xs)"
    and m: "\<And>k. map_of ys k = map_option (f k) (map_of xs k)"
  shows "list_ex (\<lambda>(k, y). P k y) ys = list_ex (\<lambda>(k, x). P k (f k x)) xs"
proof -
  from d k have dy: "distinct (map fst ys)" by simp
  have "(\<exists>(k, y)\<in>set ys. P k y) = (\<exists>(k, x)\<in>set xs. P k (f k x))"
  proof
    assume "\<exists>(k, y)\<in>set ys. P k y"
    then obtain k y where "(k, y) \<in> set ys" "P k y" by blast
    then have "map_of ys k = Some y" using dy by simp
    then obtain x where "map_of xs k = Some x" "y = f k x" by (auto simp: m)
    with \<open>P k y\<close> show "\<exists>(k, x)\<in>set xs. P k (f k x)" by (auto dest: map_of_SomeD)
  next
    assume "\<exists>(k, x)\<in>set xs. P k (f k x)"
    then obtain k x where "(k, x) \<in> set xs" "P k (f k x)" by blast
    then have "map_of xs k = Some x" using d by simp
    then have "map_of ys k = Some (f k x)" by (simp add: m)
    with \<open>P k (f k x)\<close> show "\<exists>(k, y)\<in>set ys. P k y" by (auto dest: map_of_SomeD)
  qed
  then show ?thesis by (simp add: list_ex_iff)
qed

lemma signals_base_value:
  "name_signal k (base_value k x) = name_signal k x"
  "email_signal k (base_value k x) = email_signal k x"
  "address_signal k (base_value k x) = address_signal k x"
  "device_signal k (base_value k x) = device_signal k x"
proof -
  show "name_signal k (base_value k x) = name_signal k x"
  proof (cases "standalone k x")
    case None then show ?thesis by (simp add: base_value_def)
  next
    case (Some m)
    with standalone_lower_not_combo [OF Some] show ?thesis by (simp add: name_signal_def)
  qed
  show "email_signal k (base_value k x) = email_signal k x"
  proof (cases "standalone k x")
    case None then show ?thesis by (simp add: base_value_def)
  next
    case (Some m)
    with standalone_lower_not_combo [OF Some] show ?thesis by (simp add: email_signal_def)
  qed
  show "address_signal k (base_value k x) = address_signal k x"
  proof (cases "standalone k x")
    case None then show ?thesis by (simp add: base_value_def)
  next
    case (Some m)
    with standalone_lower_not_combo [OF Some] show ?thesis by (simp add: address_signal_def)
  qed
  show "device_signal k (base_value k x) = device_signal k x"
  proof (cases "standalone k x")
    case None then show ?thesis by (simp add: base_value_def)
  next
    case (Some m)
    with standalone_lower_not_combo [OF Some] show ?thesis by (simp add: device_signal_def)
  qed
qed

lemma record_combo_redacted:
  assumes d: "distinct (map fst r)" and a: "detectAndRedact r = Inr (red, pii)"
    and c: "record_combo red"
  shows "record_combo r"
proof (rule ccontr)
  assume n: "\<not> record_combo r"
  have k: "map fst red = map fst r" using a by (rule keys_detectAndRedact)
  have m: "map_of red k = map_option (base_value k) (map_of r k)" for k
    using detectAndRedact_map_of [OF d a, of k] n
    by (cases "map_of r k") (simp_all add: final_value_def)
  note e = list_ex_mapped [OF k d m]
  have "record_combo red = record_combo r"
    unfolding record_combo_def by (simp only: e signals_base_value)
  with c n show False by simp
qed

lemma detectAndRedact_returns:
  assumes "record_combo r \<longrightarrow> (\<forall>x. map_of r ''address'' = Some x \<longrightarrow> (\<exists>b. looksLikeAddress_any x = Inr b))"
  shows "\<exists>red pii. detectAndRedact r = Inr (red, pii)"
proof (cases "record_combo r")
  case False
  then show ?thesis by (auto simp: detectAndRedact_def Let_def comboHits_loop)
next
  case True
  have "\<exists>r3. mask_address_step r red0 = Inr r3" for red0
  proof (cases "map_of r ''address''")
    case None
    then show ?thesis by (simp add: mask_address_step_def)
  next
    case (Some x)
    with assms True obtain b where "looksLikeAddress_any x = Inr b" by blast
    with Some show ?thesis by (simp add: mask_address_step_def)
  qed
  then obtain r3 where
    "mask_address_step r (mask_email_step r (mask_name_step r (redacted (fold scan_field r (scan_init r))))) = Inr r3"
    by blast
  with True show ?thesis by (auto simp: detectAndRedact_def Let_def comboHits_loop)
qed

lemma returned_address_ok:
  assumes a: "detectAndRedact r = Inr (red, pii)" and c: "record_combo r"
    and x: "map_of r ''address'' = Some x"
  shows "\<exists>b. looksLikeAddress_any x = Inr b"
  using a
proof (cases rule: detectAndRedact_cases)
  case plain
  with c show ?thesis by simp
next
  case (combo r3)
  from combo(2) x show ?thesis
    by (cases "looksLikeAddress_any x") (simp_all add: mask_address_step_def)
qed

lemma redacted_address_ok:
  assumes d: "distinct (map fst r)" and a: "detectAndRedact r = Inr (red, pii)"
    and c: "record_combo r" and y: "map_of red ''address'' = Some y"
  shows "\<exists>b. looksLikeAddress_any y = Inr b"
proof -
  from y detectAndRedact_map_of [OF d a, of "''address''"]
  obtain x where x: "map_of r ''address'' = Some x" and yx: "y = final_value True ''address'' x"
    using c by (cases "map_of r ''address''") simp_all
  from a c x obtain b where b: "looksLikeAddress_any x = Inr b" using returned_address_ok by blast
  have ck: "combo_key ''address''" by (simp add: combo_key_def)
  show ?thesis
  proof (cases b)
    case True
    with b have "combo_mask ''address'' x = Some (JStr sentinel)" by (simp add: combo_mask_def)
    then have "y = JStr sentinel" by (simp add: yx final_value_def)
    then show ?thesis using sentinel_not_address by blast
  next
    case False
    with b have "combo_mask ''address'' x = None" by (simp add: combo_mask_def)
    then have "y = x" by (simp add: yx final_value_def combo_key_base [OF ck])
    with b show ?thesis by blast
  qed
qed

lemma detectAndRedact_fixed_point:
  assumes d: "distinct (map fst r)" and a: "detectAndRedact r = Inr (red, pii)"
  shows "\<exists>pii'. detectAndRedact red = Inr (red, pii')"
proof -
  have k: "map fst red = map fst r" using a by (rule keys_detectAndRedact)
  with d have dr: "distinct (map fst red)" by simp
  have cc: "record_combo red \<longrightarrow> record_combo r"
    using record_combo_redacted [OF d a] by blast
  have "record_combo red \<longrightarrow> (\<forall>y. map_of red ''address'' = Some y \<longrightarrow> (\<exists>b. looksLikeAddress_any y = Inr b))"
    using cc redacted_address_ok [OF d a] by blast
  then obtain red2 pii2 where a2: "detectAndRedact red = Inr (red2, pii2)"
    using detectAndRedact_returns by blast
  have k2: "map fst red2 = map fst red" using a2 by (rule keys_detectAndRedact)
  have "map_of red2 j = map_of red j" for j
  proof -
    have "map_of red2 j = map_option (final_value (record_combo red) j) (map_of red j)"
      using dr a2 by (rule detectAndRedact_map_of)
    also have "map_of red j = map_option (final_value (record_combo r) j) (map_of r j)"
      using d a by (rule detectAndRedact_map_of)
    finally show ?thesis
      using final_value_idem [OF cc, of j]
      by (cases "map_of r j") (simp_all add: detectAndRedact_map_of [OF d a])
  qed
  with k2 dr have "red2 = red" by (intro alist_eqI)
  with a2 show ?thesis by blast
qed

lemma mismatch_unchanged:
  assumes d: "distinct (map fst r)" and f: "(key, x) \<in> set r"
    and h: "(str_lower key \<in> phoneKeys \<and> \<not> is10DigitPhone (value_str x))
      \<or> (str_lower key \<in> aadharKeys \<and> \<not> isAadhar (value_str x))
      \<or> (str_lower key \<in> passportKeys \<and> \<not> isPassport (value_str x))
      \<or> (str_lower key \<in> upiKeys \<and> \<not> isUpi (value_str x))"
    and a: "detectAndRedact r = Inr (red, pii)"
  shows "map_of red key = Some x"
proof -
  from d f have m: "map_of r key = Some x" by simp
  define l where "l = str_lower key"
  define v where "v = value_str x"
  from h have h': "(l \<in> phoneKeys \<and> \<not> is10DigitPhone v) \<or> (l \<in> aadharKeys \<and> \<not> isAadhar v)
      \<or> (l \<in> passportKeys \<and> \<not> isPassport v) \<or> (l \<in> upiKeys \<and> \<not> isUpi v)"
    by (simp only: l_def v_def)
  have s': "(if l \<in> phoneKeys \<and> is10DigitPhone v then Some (JStr (maskPhone v))
      else if l \<in> aadharKeys \<and> isAadhar v then Some (JStr (maskAadhar v))
      else if l \<in> passportKeys \<and> isPassport v then Some (JStr (maskPassport v))
      else if l \<in> upiKeys \<and> isUpi v then Some (JStr (maskUpi v))
      else None) = None"
    using h'
  proof (elim disjE conjE)
    assume "l \<in> phoneKeys" "\<not> is10DigitPhone v"
    then show ?thesis using key_sets_disjoint(1) [of l] by simp
  next
    assume "l \<in> aadharKeys" "\<not> isAadhar v"
    then show ?thesis using key_sets_disjoint(2) [of l] by simp
  next
    assume "l \<in> passportKeys" "\<not> isPassport v"
    then show ?thesis using key_sets_disjoint(3) [of l] by simp
  next
    assume "l \<in> upiKeys" "\<not> isUpi v"
    then show ?thesis using key_sets_disjoint(4) [of l] by simp
  qed
  have s: "standalone key x = None"
    unfolding standalone_def Let_def l_def [symmetric] v_def [symmetric] by (rule s')
  have nk: "\<not> combo_key key"
  proof
    assume ck: "combo_key key"
    then have "str_lower key = key"
      unfolding combo_key_def by (elim disjE) (simp_all only: lower_combo_keys)
    then have "l = key" by (simp only: l_def)
    with h' have "key \<in> phoneKeys \<or> key \<in> aadharKeys \<or> key \<in> passportKeys \<or> key \<in> upiKeys"
      by blast
    from standalone_keys_not_combo [OF this] ck show False by (simp only: combo_key_def) blast
  qed
  have "final_value (record_combo r) key x = x"
    by (simp add: final_value_def base_value_def s combo_mask_not_key [OF nk])
  with detectAndRedact_map_of [OF d a, of key] m show ?thesis by simp
qed

section \<open>The payment-handle pattern and non-string values\<close>

lemma userChars_are_user: "list_all isUserChar userChars"
  by code_simp

lemma userChars_codes:
  "userChars = map char_of ([65..90] @ [97..122] @ [48..57] :: int list) @ ''.-_''"
  by code_simp

lemma isUserChar_iff: "isUserChar c \<longleftrightarrow> c \<in> set userChars"
proof
  assume "c \<in> set userChars"
  then show "isUserChar c" using userChars_are_user by (simp add: list_all_iff)
next
  assume u: "isUserChar c"
  show "c \<in> set userChars"
  proof (cases "c = CHR ''.'' \<or> c = CHR ''-'' \<or> c = CHR ''_''")
    case True
    then show ?thesis by (auto simp: userChars_def)
  next
    case False
    define i :: int where "i = of_char c"
    have "int (ord c) = i" by (simp only: ord_def i_def of_nat_of_char)
    moreover from u False have "(65 \<le> ord c \<and> ord c \<le> 90) \<or> (97 \<le> ord c \<and> ord c \<le> 122)
        \<or> (48 \<le> ord c \<and> ord c \<le> 57)"
      by (simp add: isUserChar_def isAsciiLetter_def isdigit_def Let_def)
    ultimately have "(65 \<le> i \<and> i \<le> 90) \<or> (97 \<le> i \<and> i \<le> 122) \<or> (48 \<le> i \<and> i \<le> 57)"
      by linarith
    then have "i \<in> set ([65..90] @ [97..122] @ [48..57])"
      by (simp only: set_append set_upto Un_iff atLeastAtMost_iff)
    then have "char_of i \<in> set (map char_of ([65..90] @ [97..122] @ [48..57] :: int list) @ ''.-_'')"
      by (simp only: set_append set_map Un_iff image_eqI simp_thms)
    moreover have "char_of i = c" by (simp add: i_def)
    ultimately show ?thesis by (simp only: userChars_codes)
  qed
qed

lemma fullmatch_user_iff:
  "fullmatch_user u \<longleftrightarrow> 2 \<le> length u \<and> list_all (\<lambda>c. c \<in> set userChars) u"
  by (simp add: fullmatch_user_def isUserChar_iff [abs_def])

lemma isUpi_no_at: "CHR ''@'' \<notin> set v \<Longrightarrow> \<not> isUpi v"
  using isUpi_has_at by blast

lemma isUpi_explicit:
  "isUpi v \<longleftrightarrow>
     (\<exists>user handle. str_strip v = user @ CHR ''@'' # handle
        \<and> 2 \<le> length user
        \<and> list_all (\<lambda>c. c \<in> set ''ABCDEFGHIJKLMNOPQRSTUVWXYZabcdefghijklmnopqrstuvwxyz0123456789.-_'') user
        \<and> str_lower (takeWhile (\<lambda>x. x \<noteq> CHR ''.'') handle)
            \<in> {''upi'', ''ybl'', ''ibl'', ''paytm'', ''okhdfcbank'', ''okaxis'', ''oksbi'', ''okicici'',
                ''axisbank'', ''hdfcbank'', ''sbi'', ''icici'', ''fbl'', ''airtel'', ''apl'', ''yapl'',
                ''kbl'', ''axl''})"
proof -
  have at: "CHR ''@'' \<notin> set userChars" by code_simp
  have n: "list_all (\<lambda>c. c \<in> set userChars) u \<Longrightarrow> CHR ''@'' \<notin> set u" for u
    using at by (auto simp: list_all_iff)
  show ?thesis
    unfolding isUpi_decomp fullmatch_user_iff userChars_def [symmetric] upiHandles_def [symmetric]
    using n by blast
qed

lemma value_str_non_string:
  "x \<noteq> JNull \<Longrightarrow> \<forall>s. x \<noteq> JStr s \<Longrightarrow> value_str x = json_dumps x"
  by (cases x) (simp_all add: value_str_def)

lemma scan_field_value_str: "scan_field (key, x) st = scan_field (key, JStr (value_str x)) st"
  by (simp add: scan_field_def value_str_JStr)

lemma scan_field_empty: "value_str x = [] \<Longrightarrow> scan_field (key, x) st = st"
  by (simp add: scan_field_def scan_combo_def Let_def classifiers_empty str_split_Nil)

section \<open>The maskers on invalid input\<close>

text \<open>
  C3 (amended). The phone, national-ID and passport maskers return the sentinel for every
  input that fails their classifier, and the email masker for every input without an
  \<open>@\<close> (the test the record classifier applies to an email). The payment-handle masker
  does not consult \<open>isUpi\<close>: it returns the sentinel exactly when the input has no \<open>@\<close>.
\<close>

theorem maskers_invalid_sentinel:
  "(\<not> is10DigitPhone v \<longrightarrow> maskPhone v = sentinel)
   \<and> (\<not> isAadhar v \<longrightarrow> maskAadhar v = sentinel)
   \<and> (\<not> isPassport v \<longrightarrow> maskPassport v = sentinel)
   \<and> (CHR ''@'' \<notin> set v \<longrightarrow> maskEmail v = sentinel)
   \<and> (maskUpi v = sentinel \<longleftrightarrow> CHR ''@'' \<notin> set v)"
  by (simp add: maskPhone_invalid maskAadhar_invalid maskPassport_invalid
      maskEmail_sentinel_iff maskUpi_sentinel_iff)

theorem maskers_invalid_sentinel_witness:
  "\<not> is10DigitPhone ''abc'' \<and> maskPhone ''abc'' = sentinel
   \<and> \<not> isAadhar ''abc'' \<and> maskAadhar ''abc'' = sentinel
   \<and> \<not> isPassport ''abc'' \<and> maskPassport ''abc'' = sentinel
   \<and> CHR ''@'' \<notin> set ''abc'' \<and> maskEmail ''abc'' = sentinel
   \<and> maskUpi ''abc'' = sentinel"
proof -
  have h: "\<not> is10DigitPhone ''abc''" "\<not> isAadhar ''abc''" "\<not> isPassport ''abc''"
    "CHR ''@'' \<notin> set ''abc''"
    by code_simp+
  show ?thesis
    using h maskers_invalid_sentinel [of "''abc''"] by blast
qed

text \<open>
  C3 as stated fails for the payment-handle masker: \<open>someone@unknownbank\<close> is not a
  payment handle, and \<open>maskUpi\<close> masks its local part instead of returning the sentinel.
\<close>

theorem maskUpi_unknown_handle_not_sentinel:
  "\<not> isUpi ''someone@unknownbank''
   \<and> maskUpi ''someone@unknownbank'' = ''soXXXne@unknownbank''
   \<and> maskUpi ''someone@unknownbank'' \<noteq> ''[REDACTED_PII]''"
  by code_simp

section \<open>The record classifier on concrete records\<close>

text \<open>
  C8. The record with name \<open>Ravi Kumar\<close>, email \<open>ravi@example.com\<close> and phone
  \<open>9876543210\<close> is classified as PII; the phone is masked by the standalone masker, and
  name and email are masked because two combinational signals are active.
\<close>

theorem detectAndRedact_ravi:
  "detectAndRedact
     [(''name'', JStr ''Ravi Kumar''), (''email'', JStr ''ravi@example.com''),
      (''phone'', JStr ''9876543210'')]
   = Inr ([(''name'', JStr ''RXXX KXXXX''), (''email'', JStr ''raXXX@example.com''),
           (''phone'', JStr ''98XXXXXX10'')], True)"
  by code_simp

text \<open>
  C1 (the code departs from the claim). With name and email active, combinational
  redaction triggers; the \<open>ip_address\<close> field holds the placeholder \<open>0.0.0.0\<close>, so its
  signal is inactive, yet the masking step replaces it by the sentinel: that step tests
  only that the value is non-empty.
\<close>

theorem placeholder_ip_masked:
  "hasDeviceOrIp (fold scan_field
      [(''name'', JStr ''Ravi Kumar''), (''email'', JStr ''ravi@example.com''),
       (''ip_address'', JStr ''0.0.0.0'')]
      (scan_init [(''name'', JStr ''Ravi Kumar''), (''email'', JStr ''ravi@example.com''),
       (''ip_address'', JStr ''0.0.0.0'')])) = False
   \<and> detectAndRedact
      [(''name'', JStr ''Ravi Kumar''), (''email'', JStr ''ravi@example.com''),
       (''ip_address'', JStr ''0.0.0.0'')]
     = Inr ([(''name'', JStr ''RXXX KXXXX''), (''email'', JStr ''raXXX@example.com''),
             (''ip_address'', JStr ''[REDACTED_PII]'')], True)"
  by code_simp

text \<open>
  C2 (the code departs from the claim). With the keys \<open>Name\<close> and \<open>Email\<close> both signals
  are active and the record is flagged, but the masking step looks the fields up under
  the literal keys \<open>name\<close> and \<open>email\<close> and masks nothing; the same record with
  lower-case keys has both values masked.
\<close>

theorem capitalised_keys_not_masked:
  "detectAndRedact [(''Name'', JStr ''Ravi Kumar''), (''Email'', JStr ''ravi@example.com'')]
     = Inr ([(''Name'', JStr ''Ravi Kumar''), (''Email'', JStr ''ravi@example.com'')], True)
   \<and> detectAndRedact [(''name'', JStr ''Ravi Kumar''), (''email'', JStr ''ravi@example.com'')]
     = Inr ([(''name'', JStr ''RXXX KXXXX''), (''email'', JStr ''raXXX@example.com'')], True)"
  by code_simp

section \<open>The payment-handle classifier\<close>

text \<open>
  C7 (amended). For a value with exactly one \<open>@\<close>, \<open>isUpi\<close> holds exactly when the
  trimmed value splits at the \<open>@\<close> into a local part of at least two characters, all from
  \<open>[A-Za-z0-9._-]\<close>, and a rest whose text up to its first \<open>.\<close>, lower-cased, is in the
  allow-list. A value without \<open>@\<close> is not a payment handle. \<open>someone@upi\<close> is one,
  \<open>someone@unknownbank\<close> is not. Values with several \<open>@\<close> are left open.
\<close>

theorem isUpi_one_at:
  "(count_list v CHR ''@'' = 1 \<longrightarrow>
      (isUpi v \<longleftrightarrow>
        (\<exists>user handle. str_strip v = user @ CHR ''@'' # handle
          \<and> 2 \<le> length user
          \<and> list_all (\<lambda>c. c \<in> set ''ABCDEFGHIJKLMNOPQRSTUVWXYZabcdefghijklmnopqrstuvwxyz0123456789.-_'') user
          \<and> str_lower (takeWhile (\<lambda>x. x \<noteq> CHR ''.'') handle)
              \<in> {''upi'', ''ybl'', ''ibl'', ''paytm'', ''okhdfcbank'', ''okaxis'', ''oksbi'', ''okicici'',
                  ''axisbank'', ''hdfcbank'', ''sbi'', ''icici'', ''fbl'', ''airtel'', ''apl'', ''yapl'',
                  ''kbl'', ''axl''})))
   \<and> (CHR ''@'' \<notin> set v \<longrightarrow> \<not> isUpi v)
   \<and> isUpi ''someone@upi'' \<and> \<not> isUpi ''someone@unknownbank''"
proof -
  have "isUpi ''someone@upi''" "\<not> isUpi ''someone@unknownbank''"
    by code_simp+
  then show ?thesis using isUpi_explicit [of v] isUpi_no_at [of v] by blast
qed

text \<open>Witness for C7: \<open>someone@upi\<close> has one \<open>@\<close> and splits as stated; \<open>someone\<close> has none.\<close>

theorem isUpi_one_at_witness:
  "count_list ''someone@upi'' CHR ''@'' = 1
   \<and> (\<exists>user handle. str_strip ''someone@upi'' = user @ CHR ''@'' # handle
          \<and> 2 \<le> length user
          \<and> list_all (\<lambda>c. c \<in> set ''ABCDEFGHIJKLMNOPQRSTUVWXYZabcdefghijklmnopqrstuvwxyz0123456789.-_'') user
          \<and> str_lower (takeWhile (\<lambda>x. x \<noteq> CHR ''.'') handle)
              \<in> {''upi'', ''ybl'', ''ibl'', ''paytm'', ''okhdfcbank'', ''okaxis'', ''oksbi'', ''okicici'',
                  ''axisbank'', ''hdfcbank'', ''sbi'', ''icici'', ''fbl'', ''airtel'', ''apl'', ''yapl'',
                  ''kbl'', ''axl''})
   \<and> CHR ''@'' \<notin> set ''someone'' \<and> \<not> isUpi ''someone''"
proof -
  have c: "count_list ''someone@upi'' CHR ''@'' = 1" by code_simp
  have u: "isUpi ''someone@upi''" by code_simp
  have n: "CHR ''@'' \<notin> set ''someone''" by code_simp
  from c u n isUpi_one_at [of "''someone@upi''"] isUpi_one_at [of "''someone''"]
  show ?thesis by blast
qed

text \<open>
  C7 as stated fails: the value is trimmed before it is split, so a value with one \<open>@\<close>
  whose local part starts with a blank, which the pattern does not match, is accepted.
\<close>

theorem isUpi_trims_value:
  "isUpi '' someone@upi'' \<and> count_list '' someone@upi'' CHR ''@'' = 1
   \<and> takeWhile (\<lambda>x. x \<noteq> CHR ''@'') '' someone@upi'' = '' someone''
   \<and> \<not> list_all (\<lambda>c. c \<in> set ''ABCDEFGHIJKLMNOPQRSTUVWXYZabcdefghijklmnopqrstuvwxyz0123456789.-_'')
         '' someone''"
  by code_simp

text \<open>
  The test \<open>len(parts) != 2\<close> after \<open>split('@', 1)\<close> can never fire. A second \<open>@\<close> is
  rejected when it comes before the first \<open>.\<close> of the handle and accepted after it.
\<close>

lemma isUpi_second_at:
  "isUpi ''ab@upi.x@y'' \<and> count_list ''ab@upi.x@y'' CHR ''@'' = 2 \<and> \<not> isUpi ''ab@upi@x''"
  by code_simp

section \<open>Empty and non-string values\<close>

text \<open>
  C4 (amended). A field whose value is null or the empty string leaves the scan state
  unchanged: no standalone hit, no masking, no combinational signal. Any other
  non-string value is serialised with \<open>json.dumps\<close>, and a field that is not a name or
  email field is then classified exactly as the string with that text would be.
\<close>

theorem empty_value_inactive:
  "(x = JNull \<or> x = JStr [] \<longrightarrow> scan_field (key, x) st = st)
   \<and> (x \<noteq> JNull \<and> (\<forall>s. x \<noteq> JStr s) \<and> str_lower key \<noteq> ''name'' \<and> str_lower key \<noteq> ''email''
        \<longrightarrow> scan_field (key, x) st = scan_field (key, JStr (json_dumps x)) st)"
proof -
  have "x = JNull \<or> x = JStr [] \<Longrightarrow> value_str x = []"
    by (auto simp: value_str_def)
  then have 1: "x = JNull \<or> x = JStr [] \<Longrightarrow> scan_field (key, x) st = st"
    by (simp add: scan_field_empty)
  have 2: "x \<noteq> JNull \<Longrightarrow> \<forall>s. x \<noteq> JStr s \<Longrightarrow> scan_field (key, x) st = scan_field (key, JStr (json_dumps x)) st"
    using scan_field_value_str [of key x st] by (simp add: value_str_non_string)
  from 1 2 show ?thesis by blast
qed

text \<open>Witness for C4: a null phone, an empty address, and the integer 9876543210
  under \<open>phone\<close>, whose JSON text is \<open>9876543210\<close>.\<close>

theorem empty_value_inactive_witness:
  "scan_field (''phone'', JNull) (scan_init []) = scan_init []
   \<and> scan_field (''address'', JStr []) (scan_init []) = scan_init []
   \<and> str_lower ''phone'' \<noteq> ''name'' \<and> str_lower ''phone'' \<noteq> ''email''
   \<and> json_dumps (JInt 9876543210) = ''9876543210''
   \<and> scan_field (''phone'', JInt 9876543210) (scan_init [])
       = scan_field (''phone'', JStr ''9876543210'') (scan_init [])"
proof -
  have k: "str_lower ''phone'' \<noteq> ''name''" "str_lower ''phone'' \<noteq> ''email''" by code_simp+
  have j: "json_dumps (JInt 9876543210) = ''9876543210''" by code_simp
  have n: "JInt 9876543210 \<noteq> JNull \<and> (\<forall>s. JInt 9876543210 \<noteq> JStr s)" by simp
  from k j n empty_value_inactive [of JNull "''phone''" "scan_init []"]
    empty_value_inactive [of "JStr []" "''address''" "scan_init []"]
    empty_value_inactive [of "JInt 9876543210" "''phone''" "scan_init []"]
  show ?thesis by simp
qed

text \<open>
  C4 as stated fails: the integer 9876543210 under \<open>phone\<close> is a standalone hit and is
  masked, and a list under \<open>address\<close> whose JSON text holds a locality marker activates
  the address signal.
\<close>

theorem integer_phone_is_hit:
  "standaloneHit (fold scan_field [(''phone'', JInt 9876543210)] (scan_init [(''phone'', JInt 9876543210)]))
   \<and> detectAndRedact [(''phone'', JInt 9876543210)] = Inr ([(''phone'', JStr ''98XXXXXX10'')], True)
   \<and> hasAddress (fold scan_field [(''address'', JList [JStr ''12 Main Street''])]
        (scan_init [(''address'', JList [JStr ''12 Main Street''])]))"
  by code_simp

section \<open>Frame properties of the record classifier\<close>

text \<open>
  C6. Whenever the record classifier returns, the redacted record has the keys of the
  input record, in the same order: only values are replaced.
\<close>

theorem detectAndRedact_keys:
  "detectAndRedact r = Inr (red, pii) \<Longrightarrow> map fst red = map fst r"
  by (rule keys_detectAndRedact)

text \<open>Witness for C6: the record of C8 and its redacted form.\<close>

theorem detectAndRedact_keys_witness:
  "map fst [(''name'', JStr ''RXXX KXXXX''), (''email'', JStr ''raXXX@example.com''), (''phone'', JStr ''98XXXXXX10'')]
   = map fst [(''name'', JStr ''Ravi Kumar''), (''email'', JStr ''ravi@example.com''), (''phone'', JStr ''9876543210'')]"
proof -
  have "detectAndRedact
     [(''name'', JStr ''Ravi Kumar''), (''email'', JStr ''ravi@example.com''),
      (''phone'', JStr ''9876543210'')]
   = Inr ([(''name'', JStr ''RXXX KXXXX''), (''email'', JStr ''raXXX@example.com''),
           (''phone'', JStr ''98XXXXXX10'')], True)"
    by code_simp
  then show ?thesis by (rule detectAndRedact_keys)
qed

text \<open>
  C10. If the record classifier returns with the PII flag false, the redacted record is
  the input record, value for value.
\<close>

theorem not_pii_unchanged:
  "detectAndRedact r = Inr (red, False) \<Longrightarrow> red = r"
proof -
  assume a: "detectAndRedact r = Inr (red, False)"
  define st where "st = fold scan_field r (scan_init r)"
  from a have c: "\<not> 2 \<le> comboHits st" and h: "\<not> standaloneHit st"
    by (auto simp: detectAndRedact_def st_def Let_def split: if_splits sum.splits)
  from a c have "red = redacted st" by (simp add: detectAndRedact_def st_def Let_def)
  also have "\<dots> = redacted (scan_init r)" using h unfolding st_def by (rule no_hit_fold_redacted)
  finally show ?thesis by (simp add: redacted_scan_init)
qed

text \<open>Witness for C10: a record with a full name only has one signal and is returned
  unchanged.\<close>

theorem not_pii_unchanged_witness:
  "detectAndRedact [(''name'', JStr ''Ravi Kumar'')] = Inr ([(''name'', JStr ''Ravi Kumar'')], False)
   \<and> [(''name'', JStr ''Ravi Kumar'')] = [(''name'', JStr ''Ravi Kumar'')]"
proof -
  have e: "detectAndRedact [(''name'', JStr ''Ravi Kumar'')] = Inr ([(''name'', JStr ''Ravi Kumar'')], False)"
    by code_simp
  from e not_pii_unchanged [OF e] show ?thesis by simp
qed

section \<open>Pass-through and idempotence\<close>

text \<open>
  C9. A field whose lower-cased name is in a standalone alias set and whose value fails
  the classifier of that role keeps its input value in the redacted record. The keys of
  a record are distinct, as those of a \<open>dict\<close> are.
\<close>

theorem standalone_mismatch_unchanged:
  "distinct (map fst r) \<Longrightarrow> (key, x) \<in> set r \<Longrightarrow>
   (str_lower key \<in> phoneKeys \<and> \<not> is10DigitPhone (value_str x))
     \<or> (str_lower key \<in> aadharKeys \<and> \<not> isAadhar (value_str x))
     \<or> (str_lower key \<in> passportKeys \<and> \<not> isPassport (value_str x))
     \<or> (str_lower key \<in> upiKeys \<and> \<not> isUpi (value_str x)) \<Longrightarrow>
   detectAndRedact r = Inr (red, pii) \<Longrightarrow> map_of red key = Some x"
  by (rule mismatch_unchanged)

text \<open>Witness for C9: name and email trigger combinational masking; the five-digit
  value under \<open>Phone\<close> is not a phone number and is returned as it was.\<close>

theorem standalone_mismatch_unchanged_witness:
  "distinct (map fst [(''name'', JStr ''Ravi Kumar''), (''email'', JStr ''ravi@example.com''),
      (''Phone'', JStr ''12345'')])
   \<and> str_lower ''Phone'' \<in> phoneKeys \<and> \<not> is10DigitPhone (value_str (JStr ''12345''))
   \<and> detectAndRedact [(''name'', JStr ''Ravi Kumar''), (''email'', JStr ''ravi@example.com''),
      (''Phone'', JStr ''12345'')]
     = Inr ([(''name'', JStr ''RXXX KXXXX''), (''email'', JStr ''raXXX@example.com''),
           (''Phone'', JStr ''12345'')], True)
   \<and> map_of [(''name'', JStr ''RXXX KXXXX''), (''email'', JStr ''raXXX@example.com''),
           (''Phone'', JStr ''12345'')] ''Phone'' = Some (JStr ''12345'')"
proof -
  have d: "distinct (map fst [(''name'', JStr ''Ravi Kumar''), (''email'', JStr ''ravi@example.com''),
      (''Phone'', JStr ''12345'')])"
    by simp
  have m: "(''Phone'', JStr ''12345'') \<in> set [(''name'', JStr ''Ravi Kumar''),
      (''email'', JStr ''ravi@example.com''), (''Phone'', JStr ''12345'')]"
    by simp
  have h: "str_lower ''Phone'' \<in> phoneKeys" "\<not> is10DigitPhone (value_str (JStr ''12345''))"
    by code_simp+
  have e: "detectAndRedact [(''name'', JStr ''Ravi Kumar''), (''email'', JStr ''ravi@example.com''),
      (''Phone'', JStr ''12345'')]
     = Inr ([(''name'', JStr ''RXXX KXXXX''), (''email'', JStr ''raXXX@example.com''),
           (''Phone'', JStr ''12345'')], True)"
    by code_simp
  from h have h': "(str_lower ''Phone'' \<in> phoneKeys \<and> \<not> is10DigitPhone (value_str (JStr ''12345'')))
     \<or> (str_lower ''Phone'' \<in> aadharKeys \<and> \<not> isAadhar (value_str (JStr ''12345'')))
     \<or> (str_lower ''Phone'' \<in> passportKeys \<and> \<not> isPassport (value_str (JStr ''12345'')))
     \<or> (str_lower ''Phone'' \<in> upiKeys \<and> \<not> isUpi (value_str (JStr ''12345'')))"
    by blast
  from d h e standalone_mismatch_unchanged [OF d m h' e] show ?thesis by blast
qed

text \<open>
  C5. Whenever the record classifier returns, classifying the redacted record returns
  that same record again: no value changes further. The keys of a record are distinct,
  as those of a \<open>dict\<close> are.
\<close>

theorem detectAndRedact_idempotent:
  "distinct (map fst r) \<Longrightarrow> detectAndRedact r = Inr (red, pii) \<Longrightarrow>
   \<exists>pii'. detectAndRedact red = Inr (red, pii')"
  by (rule detectAndRedact_fixed_point)

text \<open>Witness for C5: the record of C8 and its redacted form.\<close>

theorem detectAndRedact_idempotent_witness:
  "distinct (map fst [(''name'', JStr ''Ravi Kumar''), (''email'', JStr ''ravi@example.com''),
      (''phone'', JStr ''9876543210'')])
   \<and> detectAndRedact [(''name'', JStr ''Ravi Kumar''), (''email'', JStr ''ravi@example.com''),
      (''phone'', JStr ''9876543210'')]
     = Inr ([(''name'', JStr ''RXXX KXXXX''), (''email'', JStr ''raXXX@example.com''),
           (''phone'', JStr ''98XXXXXX10'')], True)
   \<and> (\<exists>pii'. detectAndRedact [(''name'', JStr ''RXXX KXXXX''), (''email'', JStr ''raXXX@example.com''),
           (''phone'', JStr ''98XXXXXX10'')]
     = Inr ([(''name'', JStr ''RXXX KXXXX''), (''email'', JStr ''raXXX@example.com''),
           (''phone'', JStr ''98XXXXXX10'')], pii'))"
proof -
  have d: "distinct (map fst [(''name'', JStr ''Ravi Kumar''), (''email'', JStr ''ravi@example.com''),
      (''phone'', JStr ''9876543210'')])"
    by simp
  have e: "detectAndRedact [(''name'', JStr ''Ravi Kumar''), (''email'', JStr ''ravi@example.com''),
      (''phone'', JStr ''9876543210'')]
     = Inr ([(''name'', JStr ''RXXX KXXXX''), (''email'', JStr ''raXXX@example.com''),
           (''phone'', JStr ''98XXXXXX10'')], True)"
    by code_simp
  from d e detectAndRedact_idempotent [OF d e] show ?thesis by blast
qed

end
